theory Spec2Isabelle
  imports Main
begin

section \<open>Python strings\<close>

text \<open>
  Text is a \<open>string\<close> (a list of characters).  The string methods the plugins call are
  written out as list functions: \<open>s.startswith(p)\<close>, \<open>p in s\<close>, \<open>s.endswith(p)\<close>.
\<close>

definition startswith :: "string \<Rightarrow> string \<Rightarrow> bool" where
  "startswith s p = (take (length p) s = p)"

definition endswith :: "string \<Rightarrow> string \<Rightarrow> bool" where
  "endswith s p = (length p \<le> length s \<and> drop (length s - length p) s = p)"

text \<open>\<open>str_contains s p\<close> is Python's \<open>p in s\<close>: some position of \<open>s\<close> starts with \<open>p\<close>.\<close>

fun str_contains :: "string \<Rightarrow> string \<Rightarrow> bool" where
  "str_contains [] p = (p = [])"
| "str_contains (c # cs) p = (startswith (c # cs) p \<or> str_contains cs p)"

text \<open>
  A character stands for the code point of its number, so that a text holds the code
  points below 256; text with higher code points is outside the model.  Whitespace, as
  \<open>str.strip\<close>, \<open>str.isspace\<close> and the regular expression class \<open>\s\<close> see it on that
  range: tab to carriage return, the four separators \<open>0x1c\<close> to \<open>0x1f\<close>, the space, the
  next-line character \<open>0x85\<close> and the no-break space \<open>0xa0\<close>.
\<close>

definition is_space :: "char \<Rightarrow> bool" where
  "is_space c =
     (let n = of_char c :: nat
      in (9 \<le> n \<and> n \<le> 13) \<or> (28 \<le> n \<and> n \<le> 32) \<or> n = 133 \<or> n = 160)"

definition str_strip :: "string \<Rightarrow> string" where
  "str_strip s = rev (dropWhile is_space (rev (dropWhile is_space s)))"

text \<open>
  \<open>s.replace(old, new)\<close> for a non-empty \<open>old\<close> (the only use in the plugins): the
  occurrences are replaced from left to right and do not overlap.
\<close>

fun str_replace :: "string \<Rightarrow> string \<Rightarrow> string \<Rightarrow> string" where
  "str_replace [] old new = []"
| "str_replace (c # cs) old new =
     (if startswith (c # cs) old
      then new @ str_replace (drop (length old - 1) cs) old new
      else c # str_replace cs old new)"

section \<open>The three site clients: base addresses and \<open>contains_url\<close>\<close>

definition atsumaru_base_url :: string where
  "atsumaru_base_url = ''https://atsu.moe''"

definition mangafire_base_url :: string where
  "mangafire_base_url = ''https://mangafire.to''"

definition mangakatana_base_url :: string where
  "mangakatana_base_url = ''https://mangakatana.com''"

text \<open>
  \<open>AtsumaruClient.contains_url\<close>: \<open>url.startswith("https://atsu.moe/")\<close>;
  \<open>MangaFireClient.contains_url\<close>: \<open>"mangafire.to" in url\<close>;
  \<open>MangaKatanaClient.contains_url\<close>: \<open>url.startswith(self.base_url)\<close>.
  None of them takes the fetch primitive: the result depends on the URL alone.
\<close>

definition atsumaru_contains_url :: "string \<Rightarrow> bool" where
  "atsumaru_contains_url url = startswith url ''https://atsu.moe/''"

definition mangafire_contains_url :: "string \<Rightarrow> bool" where
  "mangafire_contains_url url = str_contains url ''mangafire.to''"

definition mangakatana_contains_url :: "string \<Rightarrow> bool" where
  "mangakatana_contains_url url = startswith url mangakatana_base_url"

section \<open>Python values\<close>

text \<open>The exceptions the modelled code can raise.\<close>

datatype error =
  KeyError | IndexError | TypeError | AttributeError | ZeroDivisionError | ValueError
  | JSONDecodeError | LibraryError

text \<open>
  \<open>xs[i:j]\<close> with integer bounds: a negative bound counts from the end, both bounds
  are clipped to the list, and the slice is empty when the upper bound is not above the
  lower one.
\<close>

definition py_slice :: "'a list \<Rightarrow> int \<Rightarrow> int \<Rightarrow> 'a list" where
  "py_slice xs i j =
     (let n = int (length xs);
          lo = (if i < 0 then max 0 (n + i) else min i n);
          hi = (if j < 0 then max 0 (n + j) else min j n)
      in take (nat (hi - lo)) (drop (nat lo) xs))"

text \<open>
  What \<open>json.loads\<close> returns.  A dictionary is the list of its items (keys distinct, as
  a loaded dictionary has them).  Numbers are integers: fractional numbers are left out
  of the model.
\<close>

datatype json =
  JNull | JBool bool | JInt int | JStr string | JList "json list" | JDict "(string \<times> json) list"

text \<open>\<open>data.get(key, default)\<close>: only a dictionary has the method.\<close>

fun py_get :: "json \<Rightarrow> string \<Rightarrow> json \<Rightarrow> error + json" where
  "py_get (JDict kvs) k d = Inr (case map_of kvs k of None \<Rightarrow> d | Some v \<Rightarrow> v)"
| "py_get _ k d = Inl AttributeError"

text \<open>
  A \<open>for\<close> loop whose body either raises, or skips the element (\<open>continue\<close>), or
  appends one result.
\<close>

fun collect :: "('a \<Rightarrow> error + 'b option) \<Rightarrow> 'a list \<Rightarrow> error + 'b list" where
  "collect f [] = Inr []"
| "collect f (x # xs) =
     (case f x of
        Inl e \<Rightarrow> Inl e
      | Inr r \<Rightarrow>
          (case collect f xs of
             Inl e \<Rightarrow> Inl e
           | Inr rs \<Rightarrow> Inr (case r of None \<Rightarrow> rs | Some y \<Rightarrow> y # rs)))"

text \<open>
  The same loop inside a generator that swallows the exception: what was yielded before
  the body raised stays yielded.
\<close>

fun yield_until_error :: "('a \<Rightarrow> error + 'b option) \<Rightarrow> 'a list \<Rightarrow> 'b list" where
  "yield_until_error f [] = []"
| "yield_until_error f (x # xs) =
     (case f x of
        Inl e \<Rightarrow> []
      | Inr None \<Rightarrow> yield_until_error f xs
      | Inr (Some y) \<Rightarrow> y # yield_until_error f xs)"

section \<open>Cards, chapters and the parsed page\<close>

text \<open>
  \<open>MangaCard(client, name, url, picture_url)\<close> and
  \<open>MangaChapter(client, name, url, manga, pictures)\<close>; the client is the plugin whose
  function built the value.
\<close>

record card =
  card_name :: string
  card_url :: string
  card_picture_url :: string

record manga_chapter =
  ch_name :: string
  ch_url :: string
  ch_manga :: card
  ch_pictures :: "string list"

text \<open>
  The HTML parser is a library.  The model sees a selected element as the values the
  code reads from it: an \<open>a\<close> tag has its text and maybe an \<open>href\<close>; an \<open>img\<close> tag
  maybe a \<open>src\<close>.  Reading a missing attribute with \<open>tag["href"]\<close> raises \<open>KeyError\<close>.
\<close>

record anchor =
  a_href :: "string option"
  a_text :: string

definition attr :: "string option \<Rightarrow> error + string" where
  "attr a = (case a of None \<Rightarrow> Inl KeyError | Some v \<Rightarrow> Inr v)"

text \<open>
  One \<open>li.item\<close> of MangaFire's chapter list: \<open>item.select_one("a")\<close>,
  \<open>item.get("data-number")\<close> and the text of \<open>item.select_one("span")\<close>.
\<close>

record li_item =
  li_link :: "anchor option"
  li_data_number :: "string option"
  li_span_text :: "string option"

section \<open>MangaFire: chapter listing\<close>

text \<open>
  The label of \<open>get_chapters\<close>:
  \<^verbatim>\<open>
  name = raw_title
  if number:
      name = f"Chapter {number}: {raw_title}"
  name = name.replace("Chapter :", "Chapter").strip()
  if name.endswith(":"): name = name[:-1]
  \<close>
\<close>

definition mangafire_label :: "string \<Rightarrow> string \<Rightarrow> string" where
  "mangafire_label number raw_title =
     (let name = (if number \<noteq> [] then ''Chapter '' @ number @ '': '' @ raw_title else raw_title);
          name = str_strip (str_replace name ''Chapter :'' ''Chapter'')
      in if endswith name '':'' then butlast name else name)"

text \<open>
  The label of \<open>iter_chapters\<close>:
  \<^verbatim>\<open>name = f"Chapter {number}" if number else raw_title\<close>
\<close>

definition mangafire_iter_label :: "string \<Rightarrow> string \<Rightarrow> string" where
  "mangafire_iter_label number raw_title =
     (if number \<noteq> [] then ''Chapter '' @ number else raw_title)"

text \<open>
  The body of the loop over the items, shared by both functions up to the label:
  an item without a link is skipped, \<open>item.get("data-number", "")\<close> defaults to the
  empty string, and the raw title is the stripped text of the span, or empty.
  \<open>urljoin\<close> is the library's.
\<close>

definition mangafire_chapter_of_item ::
  "(string \<Rightarrow> string \<Rightarrow> string) \<Rightarrow> (string \<Rightarrow> string \<Rightarrow> string) \<Rightarrow> card \<Rightarrow> li_item
     \<Rightarrow> error + manga_chapter option" where
  "mangafire_chapter_of_item label urljoin manga_card item =
     (case li_link item of
        None \<Rightarrow> Inr None
      | Some link \<Rightarrow>
          (case attr (a_href link) of
             Inl e \<Rightarrow> Inl e
           | Inr href \<Rightarrow>
               (let url = urljoin mangafire_base_url href;
                    number = (case li_data_number item of None \<Rightarrow> [] | Some n \<Rightarrow> n);
                    raw_title = (case li_span_text item of None \<Rightarrow> [] | Some t \<Rightarrow> str_strip t)
                in Inr (Some \<lparr>ch_name = label number raw_title, ch_url = url,
                                ch_manga = manga_card, ch_pictures = []\<rparr>))))"

text \<open>
  \<open>get_chapters\<close> from the fetched content on.  \<open>loaded\<close> is the outcome of
  \<open>json.loads(content)\<close>; \<open>select_items v\<close> is the outcome of
  \<open>BeautifulSoup(v, "html.parser").select("li.item")\<close>.  Everything happens inside
  \<open>try\<close>; \<open>mangafire_get_chapters\<close> is the function with its \<open>except Exception\<close>.
\<close>

definition mangafire_get_chapters_try ::
  "(json \<Rightarrow> error + li_item list) \<Rightarrow> (string \<Rightarrow> string \<Rightarrow> string) \<Rightarrow> card \<Rightarrow> error + json \<Rightarrow> int
     \<Rightarrow> error + manga_chapter list" where
  "mangafire_get_chapters_try select_items urljoin manga_card loaded page =
     (case loaded of
        Inl e \<Rightarrow> Inl e
      | Inr data \<Rightarrow>
          (case py_get data ''status'' JNull of
             Inl e \<Rightarrow> Inl e
           | Inr status \<Rightarrow>
               if status \<noteq> JInt 200 then Inr []
               else
                 (case py_get data ''result'' (JStr []) of
                    Inl e \<Rightarrow> Inl e
                  | Inr html_content \<Rightarrow>
                      (case select_items html_content of
                         Inl e \<Rightarrow> Inl e
                       | Inr items \<Rightarrow>
                           (case collect (mangafire_chapter_of_item mangafire_label urljoin manga_card) items of
                              Inl e \<Rightarrow> Inl e
                            | Inr chapters \<Rightarrow>
                                Inr (py_slice chapters ((page - 1) * 20) (page * 20)))))))"

definition mangafire_get_chapters ::
  "(json \<Rightarrow> error + li_item list) \<Rightarrow> (string \<Rightarrow> string \<Rightarrow> string) \<Rightarrow> card \<Rightarrow> error + json \<Rightarrow> int
     \<Rightarrow> manga_chapter list" where
  "mangafire_get_chapters select_items urljoin manga_card loaded page =
     (case mangafire_get_chapters_try select_items urljoin manga_card loaded page of
        Inl e \<Rightarrow> []
      | Inr chapters \<Rightarrow> chapters)"

text \<open>
  \<open>iter_chapters\<close> from the fetched content on: the same parse without the status
  test, the whole generator body inside \<open>try ... except Exception: pass\<close>.
\<close>

definition mangafire_iter_chapters ::
  "(json \<Rightarrow> error + li_item list) \<Rightarrow> (string \<Rightarrow> string \<Rightarrow> string) \<Rightarrow> string \<Rightarrow> string
     \<Rightarrow> error + json \<Rightarrow> manga_chapter list" where
  "mangafire_iter_chapters select_items urljoin manga_url manga_name loaded =
     (let manga_card = \<lparr>card_name = manga_name, card_url = manga_url, card_picture_url = []\<rparr>
      in case loaded of
           Inl e \<Rightarrow> []
         | Inr data \<Rightarrow>
             (case py_get data ''result'' (JStr []) of
                Inl e \<Rightarrow> []
              | Inr html_content \<Rightarrow>
                  (case select_items html_content of
                     Inl e \<Rightarrow> []
                   | Inr items \<Rightarrow>
                       yield_until_error
                         (mangafire_chapter_of_item mangafire_iter_label urljoin manga_card) items)))"

section \<open>MangaKatana: chapter listing\<close>

text \<open>
  \<open>chapters_from_page\<close>: \<open>rows\<close> are the elements selected by \<open>.chapter\<close>, each seen as
  its first \<open>a\<close> tag, if any.  Nothing catches the \<open>KeyError\<close> of a link without \<open>href\<close>.
\<close>

definition mangakatana_chapter_of_row :: "card \<Rightarrow> anchor option \<Rightarrow> error + manga_chapter option" where
  "mangakatana_chapter_of_row manga row =
     (case row of
        None \<Rightarrow> Inr None
      | Some link \<Rightarrow>
          (case attr (a_href link) of
             Inl e \<Rightarrow> Inl e
           | Inr url \<Rightarrow>
               Inr (Some \<lparr>ch_name = str_strip (a_text link), ch_url = url,
                          ch_manga = manga, ch_pictures = []\<rparr>)))"

definition chapters_from_page :: "anchor option list \<Rightarrow> card \<Rightarrow> error + manga_chapter list" where
  "chapters_from_page rows manga = collect (mangakatana_chapter_of_row manga) rows"

text \<open>
  \<open>get_chapters\<close>:
  \<^verbatim>\<open>return self.chapters_from_page(content, manga_card)[(page - 1) * 20 : page * 20]\<close>
\<close>

definition mangakatana_get_chapters :: "anchor option list \<Rightarrow> card \<Rightarrow> int \<Rightarrow> error + manga_chapter list" where
  "mangakatana_get_chapters rows manga_card page =
     (case chapters_from_page rows manga_card of
        Inl e \<Rightarrow> Inl e
      | Inr chapters \<Rightarrow> Inr (py_slice chapters ((page - 1) * 20) (page * 20)))"

text \<open>A string that \<open>strip\<close> leaves alone: it neither starts nor ends with whitespace.\<close>

definition stripped :: "string \<Rightarrow> bool" where
  "stripped s = (s = [] \<or> (\<not> is_space (hd s) \<and> \<not> is_space (last s)))"

section \<open>MangaFire: image descrambling\<close>

text \<open>
  An image as the code uses it: its size and its pixels.  The pixel type is left open;
  a pixel is read at integer coordinates, and only the coordinates inside the size are
  pixels of the image.
\<close>

record 'p image =
  img_width :: int
  img_height :: int
  img_pixel :: "int \<Rightarrow> int \<Rightarrow> 'p"

text \<open>\<open>Image.new(mode, (width, height))\<close>: every pixel is the blank (zero) pixel.\<close>

definition new_image :: "'p \<Rightarrow> int \<Rightarrow> int \<Rightarrow> 'p image" where
  "new_image blank width height =
     \<lparr>img_width = width, img_height = height, img_pixel = (\<lambda>i j. blank)\<rparr>"

text \<open>
  \<open>img.crop((left, upper, right, lower))\<close>: the region as an image of its own; what lies
  outside the source is blank.
\<close>

definition crop :: "'p \<Rightarrow> 'p image \<Rightarrow> int \<times> int \<times> int \<times> int \<Rightarrow> 'p image" where
  "crop blank img box =
     (case box of (left, upper, right, lower) \<Rightarrow>
        \<lparr>img_width = right - left, img_height = lower - upper,
         img_pixel = (\<lambda>i j.
           if 0 \<le> left + i \<and> left + i < img_width img \<and> 0 \<le> upper + j \<and> upper + j < img_height img
           then img_pixel img (left + i) (upper + j) else blank)\<rparr>)"

text \<open>
  \<open>result.paste(piece, (x, y))\<close>: the piece overwrites the rectangle of its size at
  \<open>(x, y)\<close>, clipped to the result.
\<close>

definition paste :: "'p image \<Rightarrow> 'p image \<Rightarrow> int \<times> int \<Rightarrow> 'p image" where
  "paste result piece pos =
     (case pos of (x, y) \<Rightarrow>
        result\<lparr>img_pixel := (\<lambda>i j.
          if x \<le> i \<and> i < x + img_width piece \<and> y \<le> j \<and> j < y + img_height piece
             \<and> 0 \<le> i \<and> i < img_width result \<and> 0 \<le> j \<and> j < img_height result
          then img_pixel piece (i - x) (j - y) else img_pixel result i j)\<rparr>)"

text \<open>
  Integer arithmetic: \<open>//\<close> and \<open>%\<close> raise on a zero divisor, and otherwise round to the
  floor, as \<open>div\<close> and \<open>mod\<close> on \<open>int\<close> do.
\<close>

definition ceil_div :: "int \<Rightarrow> int \<Rightarrow> error + int" where
  "ceil_div a b = (if b = 0 then Inl ZeroDivisionError else Inr ((a + b - 1) div b))"

definition py_mod :: "int \<Rightarrow> int \<Rightarrow> error + int" where
  "py_mod a b = (if b = 0 then Inl ZeroDivisionError else Inr (a mod b))"

definition PIECE_SIZE :: int where
  "PIECE_SIZE = 200"

definition MIN_SPLIT_COUNT :: int where
  "MIN_SPLIT_COUNT = 5"

text \<open>\<open>range(n)\<close>, and a \<open>for\<close> loop that updates a state and stops when its body raises.\<close>

definition py_range :: "int \<Rightarrow> int list" where
  "py_range n = [0..n - 1]"

fun for_each :: "('a \<Rightarrow> 's \<Rightarrow> error + 's) \<Rightarrow> 'a list \<Rightarrow> 's \<Rightarrow> error + 's" where
  "for_each body [] s = Inr s"
| "for_each body (x # xs) s =
     (case body x s of Inl e \<Rightarrow> Inl e | Inr s' \<Rightarrow> for_each body xs s')"

text \<open>
  The source tile index along one axis:
  \<^verbatim>\<open>
  if x == x_max:
      x_src_idx = x
  else:
      x_src_idx = (x_max - x + offset) % x_max
  \<close>
\<close>

definition src_idx :: "int \<Rightarrow> int \<Rightarrow> int \<Rightarrow> error + int" where
  "src_idx idx idx_max offset =
     (if idx = idx_max then Inr idx else py_mod (idx_max - idx + offset) idx_max)"

text \<open>The body of the two nested loops, for the destination tile \<open>(x, y)\<close>.\<close>

definition descramble_tile ::
  "'p \<Rightarrow> 'p image \<Rightarrow> int \<Rightarrow> int \<times> int \<Rightarrow> int \<times> int \<Rightarrow> int \<Rightarrow> int \<Rightarrow> 'p image \<Rightarrow> error + 'p image" where
  "descramble_tile blank img offset piece maxs y x result =
     (case piece of (piece_width, piece_height) \<Rightarrow>
      case maxs of (x_max, y_max) \<Rightarrow>
        (let x_dst = piece_width * x;
             y_dst = piece_height * y;
             w = min piece_width (img_width img - x_dst);
             h = min piece_height (img_height img - y_dst)
         in case src_idx x x_max offset of
              Inl e \<Rightarrow> Inl e
            | Inr x_src_idx \<Rightarrow>
                (let x_src = piece_width * x_src_idx
                 in case src_idx y y_max offset of
                      Inl e \<Rightarrow> Inl e
                    | Inr y_src_idx \<Rightarrow>
                        (let y_src = piece_height * y_src_idx;
                             box = (x_src, y_src, x_src + w, y_src + h);
                             piece = crop blank img box
                         in Inr (paste result piece (x_dst, y_dst))))))"

text \<open>
  The transform on the decoded image, from \<open>width, height = img.size\<close> to the end of the
  loops.  \<open>blank\<close> is the pixel of the new image.
\<close>

definition descramble :: "'p \<Rightarrow> 'p image \<Rightarrow> int \<Rightarrow> error + 'p image" where
  "descramble blank img offset =
     (let width = img_width img; height = img_height img
      in case ceil_div width MIN_SPLIT_COUNT of
           Inl e \<Rightarrow> Inl e
         | Inr cw \<Rightarrow>
        (case ceil_div height MIN_SPLIT_COUNT of
           Inl e \<Rightarrow> Inl e
         | Inr chh \<Rightarrow>
        (let piece_width = min PIECE_SIZE cw; piece_height = min PIECE_SIZE chh
         in case ceil_div width piece_width of
           Inl e \<Rightarrow> Inl e
         | Inr nx \<Rightarrow>
        (case ceil_div height piece_height of
           Inl e \<Rightarrow> Inl e
         | Inr ny \<Rightarrow>
        (let x_max = nx - 1; y_max = ny - 1;
             result = new_image blank width height
         in for_each
              (\<lambda>y. for_each
                 (descramble_tile blank img offset (piece_width, piece_height) (x_max, y_max) y)
                 (py_range (x_max + 1)))
              (py_range (y_max + 1)) result)))))"

text \<open>
  \<open>_descramble_image\<close>: the decoder (\<open>PILImage.open\<close> and the loading of the pixels) and
  the encoder (conversion to RGB and \<open>save\<close> as JPEG, quality 90) are the library's.
  Whatever is raised inside \<open>try\<close> is caught, and the input bytes are returned.
\<close>

type_synonym bytes = string

definition descramble_image ::
  "(bytes \<Rightarrow> error + 'p image) \<Rightarrow> ('p image \<Rightarrow> error + bytes) \<Rightarrow> 'p \<Rightarrow> bytes \<Rightarrow> int \<Rightarrow> bytes" where
  "descramble_image decode encode blank image_data offset =
     (case decode image_data of
        Inl e \<Rightarrow> image_data
      | Inr img \<Rightarrow>
          (case descramble blank img offset of
             Inl e \<Rightarrow> image_data
           | Inr result \<Rightarrow>
               (case encode result of
                  Inl e \<Rightarrow> image_data
                | Inr output \<Rightarrow> output)))"

text \<open>
  \<open>s.split(sep)\<close> for a non-empty separator: the pieces between the occurrences of
  \<open>sep\<close>, found from left to right; \<open>cur\<close> holds the current piece, reversed.
\<close>

fun str_split_from :: "string \<Rightarrow> string \<Rightarrow> string \<Rightarrow> string list" where
  "str_split_from [] sep cur = [rev cur]"
| "str_split_from (c # cs) sep cur =
     (if startswith (c # cs) sep
      then rev cur # str_split_from (drop (length sep - 1) cs) sep []
      else str_split_from cs sep (c # cur))"

definition str_split :: "string \<Rightarrow> string \<Rightarrow> string list" where
  "str_split s sep = str_split_from s sep []"

text \<open>
  What the base client's \<open>get_url\<close> returns: the body as bytes, or something else (a
  response object).
\<close>

datatype 'r content = Bytes bytes | Other 'r

text \<open>
  \<open>get_url\<close>: a URL of the form \<open>...#scrambled_<offset>\<close> is fetched without the
  fragment and its bytes are descrambled.  \<open>int(parts[1])\<close> is inside a bare \<open>except\<close>,
  \<open>parts[0]\<close> is not.  \<open>py_int\<close> is the builtin \<open>int\<close>; \<open>fetch\<close> is
  the base client's \<open>get_url\<close>, whose exception, if any, is not caught here.
\<close>

definition mangafire_get_url ::
  "(string \<Rightarrow> error + int) \<Rightarrow> (string \<Rightarrow> error + 'r content)
     \<Rightarrow> (bytes \<Rightarrow> error + 'p image) \<Rightarrow> ('p image \<Rightarrow> error + bytes) \<Rightarrow> 'p
     \<Rightarrow> string \<Rightarrow> error + 'r content" where
  "mangafire_get_url py_int fetch decode encode blank url =
     (case (if str_contains url ''#scrambled_''
            then (case str_split url ''#scrambled_'' of
                    [] \<Rightarrow> Inl IndexError
                  | [p0] \<Rightarrow> Inr (p0, False, 0)
                  | p0 # p1 # rest \<Rightarrow>
                      (case py_int p1 of
                         Inl e \<Rightarrow> Inr (p0, False, 0)
                       | Inr n \<Rightarrow> Inr (p0, True, n)))
            else Inr (url, False, 0)) of
        Inl e \<Rightarrow> Inl e
      | Inr (url', is_scrambled, offset) \<Rightarrow>
          (case fetch url' of
             Inl e \<Rightarrow> Inl e
           | Inr (Bytes data) \<Rightarrow>
               if is_scrambled then Inr (Bytes (descramble_image decode encode blank data offset))
               else Inr (Bytes data)
           | Inr (Other r) \<Rightarrow> Inr (Other r)))"
text \<open>
  For stating what the loops compute: the source tile index where no exception is
  possible, the source coordinate of a pixel coordinate along one axis, and the facts
  that hold of the tiling of one axis of length \<open>W\<close> into pieces of length \<open>pw\<close> with
  last index \<open>m\<close>.
\<close>

definition tile_src :: "int \<Rightarrow> int \<Rightarrow> int \<Rightarrow> int" where
  "tile_src idx_max offset idx =
     (if idx = idx_max then idx else (idx_max - idx + offset) mod idx_max)"

definition pixel_src :: "int \<Rightarrow> int \<Rightarrow> int \<Rightarrow> int \<Rightarrow> int" where
  "pixel_src piece idx_max offset p = piece * tile_src idx_max offset (p div piece) + p mod piece"

definition axis_ok :: "int \<Rightarrow> int \<Rightarrow> int \<Rightarrow> bool" where
  "axis_ok W pw m = (0 < pw \<and> 0 \<le> m \<and> pw * m < W \<and> W \<le> pw * (m + 1))"
definition piece_len :: "int \<Rightarrow> int" where
  "piece_len W = min PIECE_SIZE ((W + MIN_SPLIT_COUNT - 1) div MIN_SPLIT_COUNT)"

definition idx_max :: "int \<Rightarrow> int" where
  "idx_max W = (W + piece_len W - 1) div piece_len W - 1"

text \<open>
  Modelled from the spec: the forward scramble is the site's and is not in the
  repository.  The spec describes it as the inverse of the descrambling tile mapping:
  where descrambling fills the tile \<open>(x, y)\<close> from the tile \<open>(x_src_idx, y_src_idx)\<close>
  of the scrambled image, the scramble puts the tile \<open>(x, y)\<close> of the original image at
  \<open>(x_src_idx, y_src_idx)\<close>.  Sizes, tile bounds and index arithmetic are those of
  \<open>descramble\<close>.
\<close>

definition scramble_tile ::
  "'p \<Rightarrow> 'p image \<Rightarrow> int \<Rightarrow> int \<times> int \<Rightarrow> int \<times> int \<Rightarrow> int \<Rightarrow> int \<Rightarrow> 'p image \<Rightarrow> error + 'p image" where
  "scramble_tile blank img offset piece maxs y x result =
     (case piece of (piece_width, piece_height) \<Rightarrow>
      case maxs of (x_max, y_max) \<Rightarrow>
        (let x_org = piece_width * x;
             y_org = piece_height * y;
             w = min piece_width (img_width img - x_org);
             h = min piece_height (img_height img - y_org)
         in case src_idx x x_max offset of
              Inl e \<Rightarrow> Inl e
            | Inr x_src_idx \<Rightarrow>
                (case src_idx y y_max offset of
                   Inl e \<Rightarrow> Inl e
                 | Inr y_src_idx \<Rightarrow>
                     (let box = (x_org, y_org, x_org + w, y_org + h);
                          piece = crop blank img box
                      in Inr (paste result piece
                                (piece_width * x_src_idx, piece_height * y_src_idx))))))"

definition scramble :: "'p \<Rightarrow> 'p image \<Rightarrow> int \<Rightarrow> error + 'p image" where
  "scramble blank img offset =
     (let width = img_width img; height = img_height img
      in case ceil_div width MIN_SPLIT_COUNT of
           Inl e \<Rightarrow> Inl e
         | Inr cw \<Rightarrow>
        (case ceil_div height MIN_SPLIT_COUNT of
           Inl e \<Rightarrow> Inl e
         | Inr chh \<Rightarrow>
        (let piece_width = min PIECE_SIZE cw; piece_height = min PIECE_SIZE chh
         in case ceil_div width piece_width of
           Inl e \<Rightarrow> Inl e
         | Inr nx \<Rightarrow>
        (case ceil_div height piece_height of
           Inl e \<Rightarrow> Inl e
         | Inr ny \<Rightarrow>
        (let x_max = nx - 1; y_max = ny - 1;
             result = new_image blank width height
         in for_each
              (\<lambda>y. for_each
                 (scramble_tile blank img offset (piece_width, piece_height) (x_max, y_max) y)
                 (py_range (x_max + 1)))
              (py_range (y_max + 1)) result)))))"

section \<open>Dynamic values\<close>

text \<open>
  Truth of a value in \<open>if v:\<close> and \<open>a or b\<close>; iteration \<open>for x in v\<close> (a list gives its
  elements, a string its characters, a dictionary its keys, nothing else iterates);
  subscription \<open>v[key]\<close> with a string key; and \<open>n >= v\<close> for an integer \<open>n\<close>.
\<close>

fun py_truthy :: "json \<Rightarrow> bool" where
  "py_truthy JNull = False"
| "py_truthy (JBool b) = b"
| "py_truthy (JInt n) = (n \<noteq> 0)"
| "py_truthy (JStr s) = (s \<noteq> [])"
| "py_truthy (JList xs) = (xs \<noteq> [])"
| "py_truthy (JDict kvs) = (kvs \<noteq> [])"

fun py_iter :: "json \<Rightarrow> error + json list" where
  "py_iter (JList xs) = Inr xs"
| "py_iter (JStr s) = Inr (map (\<lambda>c. JStr [c]) s)"
| "py_iter (JDict kvs) = Inr (map (\<lambda>kv. JStr (fst kv)) kvs)"
| "py_iter _ = Inl TypeError"

fun py_getitem :: "json \<Rightarrow> string \<Rightarrow> error + json" where
  "py_getitem (JDict kvs) k = (case map_of kvs k of None \<Rightarrow> Inl KeyError | Some v \<Rightarrow> Inr v)"
| "py_getitem _ k = Inl TypeError"

fun py_ge :: "int \<Rightarrow> json \<Rightarrow> error + bool" where
  "py_ge n (JInt m) = Inr (n \<ge> m)"
| "py_ge n (JBool b) = Inr (n \<ge> (if b then 1 else 0))"
| "py_ge n _ = Inl TypeError"

text \<open>A list comprehension: the first element on which the body raises ends it.\<close>

fun map_raise :: "('a \<Rightarrow> error + 'b) \<Rightarrow> 'a list \<Rightarrow> error + 'b list" where
  "map_raise f [] = Inr []"
| "map_raise f (x # xs) =
     (case f x of
        Inl e \<Rightarrow> Inl e
      | Inr y \<Rightarrow> (case map_raise f xs of Inl e \<Rightarrow> Inl e | Inr ys \<Rightarrow> Inr (y # ys)))"

text \<open>
  A loop that yields one value per element inside a generator whose \<open>except\<close> ends the
  generator: the values yielded, and whether the loop ran to its end.
\<close>

fun yield_each :: "('a \<Rightarrow> error + 'b) \<Rightarrow> 'a list \<Rightarrow> 'b list \<times> bool" where
  "yield_each f [] = ([], True)"
| "yield_each f (x # xs) =
     (case f x of
        Inl e \<Rightarrow> ([], False)
      | Inr y \<Rightarrow> (y # fst (yield_each f xs), snd (yield_each f xs)))"

section \<open>Atsumaru: the lazy chapter listing\<close>

text \<open>
  The per-entry shaping of \<open>iter_chapters\<close>.  \<open>py_str\<close> is how an f-string renders a
  value (the builtin \<open>str\<close>).
\<close>

definition atsumaru_chapter :: "(json \<Rightarrow> string) \<Rightarrow> string \<Rightarrow> card \<Rightarrow> json \<Rightarrow> error + manga_chapter" where
  "atsumaru_chapter py_str slug manga_card ch =
     (case py_get ch ''id'' JNull of
        Inl e \<Rightarrow> Inl e
      | Inr ch_id \<Rightarrow>
     (case py_get ch ''title'' JNull of
        Inl e \<Rightarrow> Inl e
      | Inr title \<Rightarrow>
     (case py_get ch ''number'' (JStr []) of
        Inl e \<Rightarrow> Inl e
      | Inr number \<Rightarrow>
          (let chapter_url = atsumaru_base_url @ ''/read/'' @ slug @ ''/'' @ py_str ch_id;
               display_title =
                 (if py_truthy number then ''Ch. '' @ py_str number @ '' - '' @ py_str title
                  else py_str title)
           in Inr \<lparr>ch_name = display_title, ch_url = chapter_url,
                    ch_manga = manga_card, ch_pictures = []\<rparr>))))"

text \<open>
  One turn of \<open>while True\<close> after the fetch, that is the body of \<open>try\<close>: the chapters it
  yields, and whether the loop goes on to the next page (\<open>page += 1\<close>) or ends
  (\<open>break\<close>, also from \<open>except Exception\<close>).  \<open>loaded\<close> is the outcome of
  \<open>json.loads(content)\<close>.
\<close>

datatype 'a turn = Break "'a list" | Next_page "'a list"

definition atsumaru_turn ::
  "(json \<Rightarrow> string) \<Rightarrow> string \<Rightarrow> card \<Rightarrow> int \<Rightarrow> error + json \<Rightarrow> manga_chapter turn" where
  "atsumaru_turn py_str slug manga_card page loaded =
     (case loaded of
        Inl e \<Rightarrow> Break []
      | Inr data \<Rightarrow>
     (case py_get data ''chapters'' (JList []) of
        Inl e \<Rightarrow> Break []
      | Inr chapters_data \<Rightarrow>
          if \<not> py_truthy chapters_data then Break []
          else
     (case py_iter chapters_data of
        Inl e \<Rightarrow> Break []
      | Inr chs \<Rightarrow>
          (let (yielded, completed) = yield_each (atsumaru_chapter py_str slug manga_card) chs
           in if \<not> completed then Break yielded
              else
     (case py_get data ''pages'' (JInt 0) of
        Inl e \<Rightarrow> Break yielded
      | Inr total_pages \<Rightarrow>
     (case py_ge (page + 1) total_pages of
        Inl e \<Rightarrow> Break yielded
      | Inr stop \<Rightarrow> if stop then Break yielded else Next_page yielded))))))"

text \<open>
  How a generator ended, and the loop.  \<open>fetch slug page\<close> is the outcome of \<open>get_url\<close>
  on the chapters URL of the slug and the page, followed by \<open>json.loads\<close>; an exception
  of \<open>get_url\<close> itself is outside \<open>try\<close>.  The loop need not end: not ending is \<open>None\<close>.
\<close>

datatype ending = Exhausted | Raised error

partial_function (option) atsumaru_pages ::
  "(string \<Rightarrow> int \<Rightarrow> error + (error + json)) \<Rightarrow> (json \<Rightarrow> string) \<Rightarrow> string \<Rightarrow> card \<Rightarrow> int
     \<Rightarrow> (manga_chapter list \<times> ending) option" where
  "atsumaru_pages fetch py_str slug manga_card page =
     (case fetch slug page of
        Inl e \<Rightarrow> Some ([], Raised e)
      | Inr loaded \<Rightarrow>
          (case atsumaru_turn py_str slug manga_card page loaded of
             Break yielded \<Rightarrow> Some (yielded, Exhausted)
           | Next_page yielded \<Rightarrow>
               Option.bind (atsumaru_pages fetch py_str slug manga_card (page + 1))
                 (\<lambda>rest. Some (yielded @ fst rest, snd rest))))"

text \<open>\<open>iter_chapters\<close>: the slug is the last piece of the URL, and the page counter starts at 0.\<close>

definition atsumaru_iter_chapters ::
  "(string \<Rightarrow> int \<Rightarrow> error + (error + json)) \<Rightarrow> (json \<Rightarrow> string) \<Rightarrow> string \<Rightarrow> string
     \<Rightarrow> (manga_chapter list \<times> ending) option" where
  "atsumaru_iter_chapters fetch py_str manga_url manga_name =
     (let manga_card = \<lparr>card_name = manga_name, card_url = manga_url, card_picture_url = []\<rparr>;
          slug = last (str_split manga_url ''/'')
      in atsumaru_pages fetch py_str slug manga_card 0)"

declare atsumaru_pages.simps [code]

text \<open>
  A fetched page with no items: it loads as a dictionary whose \<open>chapters\<close> entry is
  missing or empty.
\<close>

definition no_items :: "error + (error + json) \<Rightarrow> bool" where
  "no_items fetched =
     (case fetched of
        Inr (Inr data) \<Rightarrow>
          (case py_get data ''chapters'' (JList []) of
             Inr chapters_data \<Rightarrow> \<not> py_truthy chapters_data
           | Inl e \<Rightarrow> False)
      | _ \<Rightarrow> False)"

section \<open>Atsumaru: search\<close>

text \<open>
  \<open>MangaCard(self, title, manga_url, thumbnail_url)\<close> of Atsumaru: the title is the value
  of the payload, whatever it is.
\<close>

record atsumaru_card =
  ac_name :: json
  ac_url :: string
  ac_picture_url :: string

definition removeprefix :: "string \<Rightarrow> string \<Rightarrow> string" where
  "removeprefix s p = (if startswith s p then drop (length p) s else s)"

text \<open>The body of \<open>for item in items\<close>.\<close>

definition atsumaru_card_of :: "(json \<Rightarrow> string) \<Rightarrow> json \<Rightarrow> error + atsumaru_card" where
  "atsumaru_card_of py_str item =
     (case py_get item ''id'' JNull of
        Inl e \<Rightarrow> Inl e
      | Inr manga_id \<Rightarrow>
     (case py_get item ''title'' JNull of
        Inl e \<Rightarrow> Inl e
      | Inr title \<Rightarrow>
     (case py_get item ''poster'' JNull of
        Inl e \<Rightarrow> Inl e
      | Inr poster \<Rightarrow>
     (case (if py_truthy poster then Inr poster else py_get item ''image'' JNull) of
        Inl e \<Rightarrow> Inl e
      | Inr image_path \<Rightarrow>
     (case (case image_path of JDict kvs \<Rightarrow> py_get image_path ''image'' JNull | _ \<Rightarrow> Inr image_path) of
        Inl e \<Rightarrow> Inl e
      | Inr image_path \<Rightarrow>
          (let thumbnail_url =
                 (if py_truthy image_path
                  then atsumaru_base_url @ ''/static/''
                         @ removeprefix (removeprefix (py_str image_path) ''/'') ''static/''
                  else []);
               manga_url = atsumaru_base_url @ ''/manga/'' @ py_str manga_id
           in Inr \<lparr>ac_name = title, ac_url = manga_url, ac_picture_url = thumbnail_url\<rparr>))))))"

text \<open>
  \<open>search\<close> from the fetched content on; \<open>loaded\<close> is the outcome of
  \<open>json.loads(content)\<close>.  Both \<open>try\<close> blocks catch \<open>json.JSONDecodeError\<close> only, and the
  loop over the items is outside them: \<open>Inl\<close> is an exception that reaches the caller.
\<close>

definition atsumaru_search :: "(json \<Rightarrow> string) \<Rightarrow> string \<Rightarrow> error + json \<Rightarrow> error + atsumaru_card list" where
  "atsumaru_search py_str query loaded =
     (case (case loaded of
              Inl e \<Rightarrow> Inl e
            | Inr data \<Rightarrow>
                if query = [] then py_get data ''items'' (JList [])
                else
                  (case py_get data ''hits'' (JList []) of
                     Inl e \<Rightarrow> Inl e
                   | Inr hits \<Rightarrow>
                       (case py_iter hits of
                          Inl e \<Rightarrow> Inl e
                        | Inr hs \<Rightarrow>
                            (case map_raise (\<lambda>hit. py_getitem hit ''document'') hs of
                               Inl e \<Rightarrow> Inl e
                             | Inr documents \<Rightarrow> Inr (JList documents))))) of
        Inl e \<Rightarrow> if e = JSONDecodeError then Inr [] else Inl e
      | Inr items \<Rightarrow>
          (case py_iter items of
             Inl e \<Rightarrow> Inl e
           | Inr its \<Rightarrow> map_raise (atsumaru_card_of py_str) its))"

section \<open>MangaFire and MangaKatana: search\<close>

text \<open>
  An element of a listing page as the code reads it: the title link (\<open>.info > a\<close> for
  MangaFire, \<open>div.text\<close> then \<open>h3 > a\<close> for MangaKatana), if there is one, and the \<open>src\<close> of
  the first \<open>img\<close>, if there is an \<open>img\<close>.
\<close>

record listing_element =
  el_link :: "anchor option"
  el_img :: "string option option"

definition picture_of :: "listing_element \<Rightarrow> error + string" where
  "picture_of element = (case el_img element of None \<Rightarrow> Inr [] | Some img \<Rightarrow> attr img)"

definition mangafire_card_of :: "(string \<Rightarrow> string \<Rightarrow> string) \<Rightarrow> listing_element \<Rightarrow> error + card option" where
  "mangafire_card_of urljoin element =
     (case el_link element of
        None \<Rightarrow> Inr None
      | Some info_link \<Rightarrow>
          (case attr (a_href info_link) of
             Inl e \<Rightarrow> Inl e
           | Inr href \<Rightarrow>
               (case picture_of element of
                  Inl e \<Rightarrow> Inl e
                | Inr picture_url \<Rightarrow>
                    Inr (Some \<lparr>card_name = str_strip (a_text info_link),
                               card_url = urljoin mangafire_base_url href,
                               card_picture_url = picture_url\<rparr>))))"

text \<open>\<open>MangaFireClient.search\<close> on the selected elements; there is no \<open>try\<close> in it.\<close>

definition mangafire_search :: "(string \<Rightarrow> string \<Rightarrow> string) \<Rightarrow> listing_element list \<Rightarrow> error + card list" where
  "mangafire_search urljoin container = collect (mangafire_card_of urljoin) container"

definition mangakatana_card_of :: "listing_element \<Rightarrow> error + card option" where
  "mangakatana_card_of item =
     (case el_link item of
        None \<Rightarrow> Inr None
      | Some link \<Rightarrow>
          (case attr (a_href link) of
             Inl e \<Rightarrow> Inl e
           | Inr url \<Rightarrow>
               (case picture_of item of
                  Inl e \<Rightarrow> Inl e
                | Inr picture_url \<Rightarrow>
                    Inr (Some \<lparr>card_name = str_strip (a_text link), card_url = url,
                               card_picture_url = picture_url\<rparr>))))"

text \<open>\<open>mangas_from_page\<close>, which is all of \<open>MangaKatanaClient.search\<close> after the fetch.\<close>

definition mangas_from_page :: "listing_element list \<Rightarrow> error + card list" where
  "mangas_from_page items = collect mangakatana_card_of items"

section \<open>Recently updated items\<close>

text \<open>
  The two loops at the end of MangaFire's and MangaKatana's \<open>check_updated_urls\<close>: the
  previous URLs found among the listed ones, and the others, both in their order.
\<close>

definition classify :: "string list \<Rightarrow> manga_chapter list \<Rightarrow> string list \<times> string list" where
  "classify listed last_chapters =
     (filter (\<lambda>u. u \<in> set listed) (map ch_url last_chapters),
      filter (\<lambda>u. u \<notin> set listed) (map ch_url last_chapters))"

definition mangafire_check_updated_urls ::
  "(string \<Rightarrow> string \<Rightarrow> string) \<Rightarrow> listing_element list \<Rightarrow> manga_chapter list
     \<Rightarrow> error + (string list \<times> string list)" where
  "mangafire_check_updated_urls urljoin container last_chapters =
     (case collect
             (\<lambda>element. case el_link element of
                 None \<Rightarrow> Inr None
               | Some link \<Rightarrow>
                   (case attr (a_href link) of
                      Inl e \<Rightarrow> Inl e
                    | Inr href \<Rightarrow> Inr (Some (urljoin mangafire_base_url href))))
             container of
        Inl e \<Rightarrow> Inl e
      | Inr updates \<Rightarrow> Inr (classify updates last_chapters))"

definition mangakatana_check_updated_urls ::
  "listing_element list \<Rightarrow> manga_chapter list \<Rightarrow> error + (string list \<times> string list)" where
  "mangakatana_check_updated_urls items last_chapters =
     (case collect
             (\<lambda>item. case el_link item of
                 None \<Rightarrow> Inr None
               | Some link \<Rightarrow>
                   (case attr (a_href link) of
                      Inl e \<Rightarrow> Inl e
                    | Inr href \<Rightarrow> Inr (Some href)))
             items of
        Inl e \<Rightarrow> Inl e
      | Inr updated_urls \<Rightarrow> Inr (classify updated_urls last_chapters))"

text \<open>
  Atsumaru's \<open>check_updated_urls\<close> from the fetched content on: everything is inside
  \<open>try ... except Exception: return [], []\<close>.
\<close>

definition atsumaru_check_updated_urls :: "error + json \<Rightarrow> manga_chapter list \<Rightarrow> string list \<times> string list" where
  "atsumaru_check_updated_urls loaded last_chapters =
     (case (case loaded of
              Inl e \<Rightarrow> Inl e
            | Inr data \<Rightarrow>
                (case py_get data ''items'' (JList []) of
                   Inl e \<Rightarrow> Inl e
                 | Inr items \<Rightarrow>
                     (case py_iter items of
                        Inl e \<Rightarrow> Inl e
                      | Inr its \<Rightarrow>
                          (case map_raise (\<lambda>item. py_get item ''id'' JNull) its of
                             Inl e \<Rightarrow> Inl e
                           | Inr ids \<Rightarrow> Inr ([], map ch_url last_chapters))))) of
        Inl e \<Rightarrow> ([], [])
      | Inr result \<Rightarrow> result)"

section \<open>MangaKatana: the asset array in the script text\<close>

text \<open>
  The regular expressions of \<open>pictures_from_chapters\<close>, each as a matcher at the start
  of a text and a search for the leftmost position that matches.  \<open>\s\<close> is \<open>is_space\<close>;
  \<open>\w\<close> is the underscore or an alphanumeric character, which on the code points below
  256 are the digits and letters of ASCII, the superscript digits, the fractions, the
  ordinal indicators, the micro sign and the letters from \<open>0xc0\<close> on (all but the
  multiplication and the division sign).
\<close>

definition is_word :: "char \<Rightarrow> bool" where
  "is_word c =
     (let n = of_char c :: nat
      in (48 \<le> n \<and> n \<le> 57) \<or> (65 \<le> n \<and> n \<le> 90) \<or> n = 95 \<or> (97 \<le> n \<and> n \<le> 122)
         \<or> n = 170 \<or> n = 178 \<or> n = 179 \<or> n = 181 \<or> n = 185 \<or> n = 186
         \<or> (188 \<le> n \<and> n \<le> 190) \<or> (192 \<le> n \<and> n \<le> 214) \<or> (216 \<le> n \<and> n \<le> 246)
         \<or> (248 \<le> n \<and> n \<le> 255))"

definition quote :: char where
  "quote = CHR 0x27"

definition dquote :: char where
  "dquote = CHR 0x22"

text \<open>
  \<^verbatim>\<open>data-src['"],\s*(\w+)\<close> at the start of \<open>s\<close>: the group.  \<open>\s*\<close> and \<open>\w+\<close> are
  greedy, and giving back a character never helps the match, since no character is both.
\<close>

definition match_marker :: "string \<Rightarrow> string option" where
  "match_marker s =
     (if startswith s ''data-src''
      then (case drop 8 s of
              q # c # rest \<Rightarrow>
                if (q = quote \<or> q = dquote) \<and> c = CHR '',''
                then (let name = takeWhile is_word (dropWhile is_space rest)
                      in if name = [] then None else Some name)
                else None
            | _ \<Rightarrow> None)
      else None)"

fun search_marker :: "string \<Rightarrow> string option" where
  "search_marker [] = match_marker []"
| "search_marker (c # cs) =
     (case match_marker (c # cs) of Some name \<Rightarrow> Some name | None \<Rightarrow> search_marker cs)"

text \<open>
  \<^verbatim>\<open>var NAME=\[([^\]]*)\]\<close> at the start of \<open>s\<close>, for the name found by the first
  search (word characters only, so it stands for itself in the pattern): the group.
\<close>

definition match_array :: "string \<Rightarrow> string \<Rightarrow> string option" where
  "match_array var_name s =
     (let prefix = ''var '' @ var_name @ ''=[''
      in if startswith s prefix
         then (let rest = drop (length prefix) s;
                   body = takeWhile (\<lambda>c. c \<noteq> CHR '']'') rest
               in if length body < length rest then Some body else None)
         else None)"

fun search_array :: "string \<Rightarrow> string \<Rightarrow> string option" where
  "search_array var_name [] = match_array var_name []"
| "search_array var_name (c # cs) =
     (case match_array var_name (c # cs) of
        Some body \<Rightarrow> Some body
      | None \<Rightarrow> search_array var_name cs)"

text \<open>
  \<^verbatim>\<open>'([^']*)'\<close> at the start of \<open>s\<close>: the group and the text after the match; and
  \<open>re.findall\<close>, which goes on after a match and one character further after a failure.
\<close>

definition match_quoted :: "string \<Rightarrow> (string \<times> string) option" where
  "match_quoted s =
     (case s of
        [] \<Rightarrow> None
      | c # rest \<Rightarrow>
          if c = quote
          then (case dropWhile (\<lambda>c. c \<noteq> quote) rest of
                  [] \<Rightarrow> None
                | c' # after \<Rightarrow> Some (takeWhile (\<lambda>c. c \<noteq> quote) rest, after))
          else None)"

function findall_quoted :: "string \<Rightarrow> string list" where
  "findall_quoted [] = []"
| "findall_quoted (c # cs) =
     (case match_quoted (c # cs) of
        Some (body, after) \<Rightarrow> body # findall_quoted after
      | None \<Rightarrow> findall_quoted cs)"
  by pat_completeness auto
termination
proof (relation "measure length")
  fix c cs x body after
  assume "match_quoted (c # cs) = Some x" "(body, after) = x"
  then have "dropWhile (\<lambda>c. c \<noteq> quote) cs = hd (dropWhile (\<lambda>c. c \<noteq> quote) cs) # after"
    by (auto simp: match_quoted_def split: if_splits list.splits)
  then have "length after < length (dropWhile (\<lambda>c. c \<noteq> quote) cs)"
    by (metis length_Cons lessI)
  also have "\<dots> \<le> length cs" by (rule length_dropWhile_le)
  finally show "(after, c # cs) \<in> measure length" by simp
qed simp_all

text \<open>
  \<open>MangaKatanaClient.pictures_from_chapters\<close> on the decoded text
  (\<open>content.decode("utf-8", errors="ignore")\<close> does not raise).  No step can raise:
  the function has no error result.
\<close>

definition mangakatana_pictures_from_chapters :: "string \<Rightarrow> string list" where
  "mangakatana_pictures_from_chapters html_str =
     (case search_marker html_str of
        None \<Rightarrow> []
      | Some var_name \<Rightarrow>
          (case search_array var_name html_str of
             None \<Rightarrow> []
           | Some raw_array \<Rightarrow> findall_quoted raw_array))"

section \<open>Facts about the string functions\<close>

lemma startswith_iff: "startswith s p \<longleftrightarrow> (\<exists>rest. s = p @ rest)"
proof
  assume "startswith s p"
  then have "s = p @ drop (length p) s"
    unfolding startswith_def by (metis append_take_drop_id)
  then show "\<exists>rest. s = p @ rest" ..
next
  assume "\<exists>rest. s = p @ rest"
  then show "startswith s p"
    unfolding startswith_def by auto
qed

lemma startswith_Nil [simp]: "startswith s []"
  by (simp add: startswith_def)

lemma str_contains_iff: "str_contains s p \<longleftrightarrow> (\<exists>pre post. s = pre @ p @ post)"
proof (induction s)
  case Nil
  then show ?case by auto
next
  case (Cons c cs)
  show ?case
  proof
    assume "str_contains (c # cs) p"
    then consider "startswith (c # cs) p" | "str_contains cs p" by auto
    then show "\<exists>pre post. c # cs = pre @ p @ post"
    proof cases
      case 1
      then obtain rest where "c # cs = p @ rest" by (auto simp: startswith_iff)
      then have "c # cs = [] @ p @ rest" by simp
      then show ?thesis by blast
    next
      case 2
      then obtain pre post where "cs = pre @ p @ post" using Cons.IH by auto
      then have "c # cs = (c # pre) @ p @ post" by simp
      then show ?thesis by blast
    qed
  next
    assume "\<exists>pre post. c # cs = pre @ p @ post"
    then obtain pre post where e: "c # cs = pre @ p @ post" by auto
    show "str_contains (c # cs) p"
    proof (cases pre)
      case Nil
      with e have "startswith (c # cs) p" by (auto simp: startswith_iff)
      then show ?thesis by simp
    next
      case (Cons d pre')
      with e have "cs = pre' @ p @ post" by simp
      then have "str_contains cs p" using Cons.IH by blast
      then show ?thesis by simp
    qed
  qed
qed

section \<open>Membership test\<close>

text \<open>
  C9, as stated, fails for MangaFire: its test is a substring test, so a URL that does not
  start with the base address \<open>https://mangafire.to\<close> is accepted as soon as it contains
  \<open>mangafire.to\<close> somewhere.
\<close>

theorem contains_url_not_prefix_test:
  "\<not> (mangafire_contains_url ''http://mangafire.to/manga/x.1''
       \<longleftrightarrow> (\<exists>rest. ''http://mangafire.to/manga/x.1'' = mangafire_base_url @ rest))"
  by (simp add: mangafire_contains_url_def mangafire_base_url_def startswith_def)

text \<open>
  C9, amended: each \<open>contains_url\<close> is a test on the URL string alone.  MangaKatana
  accepts exactly the URLs that start with its base address; Atsumaru accepts exactly the
  URLs that start with its base address followed by a slash; MangaFire accepts exactly the
  URLs that contain \<open>mangafire.to\<close> anywhere, which includes every URL that starts with
  its base address.
\<close>

theorem contains_url_string_tests:
  "(mangakatana_contains_url url \<longleftrightarrow> (\<exists>rest. url = mangakatana_base_url @ rest))
   \<and> (atsumaru_contains_url url \<longleftrightarrow> (\<exists>rest. url = atsumaru_base_url @ ''/'' @ rest))
   \<and> (mangafire_contains_url url \<longleftrightarrow> (\<exists>pre post. url = pre @ ''mangafire.to'' @ post))
   \<and> mangafire_contains_url (mangafire_base_url @ rest')"
proof -
  have k: "mangakatana_contains_url url \<longleftrightarrow> (\<exists>rest. url = mangakatana_base_url @ rest)"
    by (simp add: mangakatana_contains_url_def startswith_iff)
  have a: "atsumaru_contains_url url \<longleftrightarrow> (\<exists>rest. url = atsumaru_base_url @ ''/'' @ rest)"
    by (simp add: atsumaru_contains_url_def startswith_iff atsumaru_base_url_def)
  have f: "mangafire_contains_url u \<longleftrightarrow> (\<exists>pre post. u = pre @ ''mangafire.to'' @ post)" for u
    unfolding mangafire_contains_url_def by (rule str_contains_iff)
  have "mangafire_base_url @ rest' = ''https://'' @ ''mangafire.to'' @ rest'"
    by (simp add: mangafire_base_url_def)
  then have b: "mangafire_contains_url (mangafire_base_url @ rest')"
    unfolding f by blast
  from k a f [of url] b show ?thesis by blast
qed

section \<open>Slices, \<open>replace\<close> and \<open>strip\<close>\<close>

lemma py_slice_page:
  assumes "1 \<le> page"
  shows "py_slice xs ((page - 1) * 20) (page * 20) = take 20 (drop (nat ((page - 1) * 20)) xs)"
proof -
  define lo where "lo = nat ((page - 1) * 20)"
  have lo: "(page - 1) * 20 = int lo" "page * 20 = int lo + 20"
    using assms by (auto simp: lo_def)
  show ?thesis
  proof (cases "lo \<le> length xs")
    case True
    then have "py_slice xs (int lo) (int lo + 20) = take (nat (min (int lo + 20) (int (length xs)) - int lo)) (drop lo xs)"
      by (simp add: py_slice_def Let_def min_def)
    also have "\<dots> = take 20 (drop lo xs)"
      using True by (cases "lo + 20 \<le> length xs") (auto simp: min_def)
    finally show ?thesis by (simp add: lo lo_def[symmetric])
  next
    case False
    then show ?thesis
      by (simp add: lo lo_def[symmetric] py_slice_def Let_def min_def)
  qed
qed

lemma startswith_set: "startswith s p \<Longrightarrow> set p \<subseteq> set s"
  unfolding startswith_def by (metis set_take_subset)

lemma str_replace_absent: "x \<in> set old \<Longrightarrow> x \<notin> set s \<Longrightarrow> str_replace s old new = s"
proof (induction s)
  case Nil
  then show ?case by simp
next
  case (Cons c cs)
  then have "\<not> startswith (c # cs) old"
    using startswith_set by blast
  with Cons show ?case by simp
qed

lemma stripped_fix: "stripped s \<Longrightarrow> str_strip s = s"
  by (metis dropWhile_eq_self_iff hd_rev rev.simps(1) rev_rev_ident
    str_strip_def stripped_def)

lemma stripped_strip: "stripped (str_strip s)"
proof -
  define v where "v = dropWhile is_space s"
  define w where "w = dropWhile is_space (rev v)"
  have s: "str_strip s = rev w" by (simp add: str_strip_def v_def w_def)
  show ?thesis
  proof (cases "w = []")
    case True
    then show ?thesis by (simp add: s stripped_def)
  next
    case False
    then have hw: "\<not> is_space (hd w)" unfolding w_def by (simp add: hd_dropWhile)
    from False have "rev v \<noteq> []" unfolding w_def by auto
    then have vne: "v \<noteq> []" by simp
    then have hv: "\<not> is_space (hd v)" unfolding v_def by (simp add: hd_dropWhile)
    from False obtain x where "x \<in> set (rev v)" "\<not> is_space x"
      unfolding w_def by (auto simp: dropWhile_eq_Nil_conv)
    then have "last w = last (rev v)" unfolding w_def
      by (rule dropWhile_last)
    also have "\<dots> = hd v" using vne by (simp add: last_rev)
    finally have lw: "last w = hd v" .
    have "hd (rev w) = last w" "last (rev w) = hd w" using False by (simp_all add: hd_rev last_rev)
    with hw hv lw False show ?thesis by (simp add: s stripped_def)
  qed
qed

lemma str_strip_idem: "str_strip (str_strip s) = str_strip s"
  by (rule stripped_fix) (rule stripped_strip)

lemma endswith_colon: "endswith s '':'' \<longleftrightarrow> (s \<noteq> [] \<and> last s = CHR '':'')"
  by (cases s rule: rev_cases) (auto simp: endswith_def)

lemma label_no_colon:
  assumes "number = []" and "raw_title = str_strip t"
  shows "mangafire_iter_label number raw_title = raw_title
     \<and> (CHR '':'' \<notin> set raw_title \<longrightarrow>
          mangafire_label number raw_title = raw_title
          \<and> \<not> endswith (mangafire_label number raw_title) '':'')"
proof -
  have i: "mangafire_iter_label number raw_title = raw_title"
    using assms by (simp add: mangafire_iter_label_def)
  have g: "mangafire_label number raw_title = raw_title \<and> \<not> endswith (mangafire_label number raw_title) '':''"
    if nc: "CHR '':'' \<notin> set raw_title"
  proof -
    have r: "str_replace raw_title ''Chapter :'' ''Chapter'' = raw_title"
      by (rule str_replace_absent [OF _ nc]) simp
    have s: "str_strip raw_title = raw_title"
      using assms(2) by (simp add: str_strip_idem)
    have e: "\<not> endswith raw_title '':''"
      using nc by (metis endswith_colon last_in_set)
    show ?thesis
      using assms(1) r s e by (simp add: mangafire_label_def)
  qed
  from i g show ?thesis by blast
qed

lemma endswith_iff: "endswith s p \<longleftrightarrow> (\<exists>pre. s = pre @ p)"
proof
  assume "endswith s p"
  then have "s = take (length s - length p) s @ p"
    unfolding endswith_def by (metis append_take_drop_id)
  then show "\<exists>pre. s = pre @ p" ..
next
  assume "\<exists>pre. s = pre @ p"
  then show "endswith s p" unfolding endswith_def by auto
qed

lemma str_replace_decomp:
  "\<exists>pre pre' t. s = pre @ t \<and> str_replace s old new = pre' @ t
       \<and> ((pre = [] \<and> pre' = []) \<or> (\<exists>p'. pre' = p' @ new))"
proof (induction s old new rule: str_replace.induct)
  case (1 old new)
  then show ?case by simp
next
  case (2 c cs old new)
  show ?case
  proof (cases "startswith (c # cs) old")
    case True
    define s' where "s' = drop (length old - 1) cs"
    from 2(1) [OF True] obtain pre pre' t where
      h: "s' = pre @ t" "str_replace s' old new = pre' @ t"
         "(pre = [] \<and> pre' = []) \<or> (\<exists>p'. pre' = p' @ new)"
      unfolding s'_def by blast
    have a: "c # cs = (c # take (length old - 1) cs @ pre) @ t"
      using h(1) unfolding s'_def by (metis append.assoc append_Cons append_take_drop_id)
    have b: "str_replace (c # cs) old new = (new @ pre') @ t"
      using True h(2) unfolding s'_def by simp
    have "\<exists>p'. new @ pre' = p' @ new"
      using h(3) by (metis append.assoc append_Nil append_Nil2)
    with a b show ?thesis by blast
  next
    case False
    from 2(2) [OF False] obtain pre pre' t where
      h: "cs = pre @ t" "str_replace cs old new = pre' @ t"
         "(pre = [] \<and> pre' = []) \<or> (\<exists>p'. pre' = p' @ new)"
      by blast
    from h(3) show ?thesis
    proof
      assume "pre = [] \<and> pre' = []"
      then have "str_replace (c # cs) old new = [] @ (c # cs)" "c # cs = [] @ (c # cs)"
        using False h by simp_all
      then show ?thesis by blast
    next
      assume "\<exists>p'. pre' = p' @ new"
      then obtain p' where "pre' = p' @ new" ..
      then have "str_replace (c # cs) old new = ((c # p') @ new) @ t" "c # cs = (c # pre) @ t"
        using False h by simp_all
      then show ?thesis by blast
    qed
  qed
qed

lemma replace_no_trailing_space:
  assumes "stripped s" and "r = str_replace s ''Chapter :'' ''Chapter''"
  shows "r = [] \<or> \<not> is_space (last r)"
proof -
  obtain pre pre' t where
    h: "s = pre @ t" "r = pre' @ t" "(pre = [] \<and> pre' = []) \<or> (\<exists>p'. pre' = p' @ ''Chapter'')"
    using str_replace_decomp [of s "''Chapter :''" "''Chapter''"] assms(2) by blast
  show ?thesis
  proof (cases "t = []")
    case True
    from h(3) show ?thesis
    proof
      assume "pre = [] \<and> pre' = []"
      with True h(2) show ?thesis by simp
    next
      assume "\<exists>p'. pre' = p' @ ''Chapter''"
      then obtain p' where "pre' = p' @ ''Chapter''" ..
      with True h(2) have "last r = CHR ''r''" by simp
      then show ?thesis by (simp add: is_space_def)
    qed
  next
    case False
    then have "last r = last s" "s \<noteq> []" using h by simp_all
    with assms(1) show ?thesis by (simp add: stripped_def)
  qed
qed

lemma strip_suffix_of:
  assumes "r = [] \<or> \<not> is_space (last r)"
  shows "\<exists>lead. r = lead @ str_strip r"
proof -
  define v where "v = dropWhile is_space r"
  have r: "r = takeWhile is_space r @ v" by (simp add: v_def)
  show ?thesis
  proof (cases "v = []")
    case True
    have "str_strip r = rev (dropWhile is_space (rev v))"
      by (simp add: str_strip_def v_def)
    with True have "str_strip r = []" by simp
    then show ?thesis by simp
  next
    case False
    then have "last v = last r" using r by (metis last_appendR)
    moreover have "r \<noteq> []" using False r by auto
    ultimately have "\<not> is_space (last v)" using assms by simp
    then have "\<not> is_space (hd (rev v))" using False by (simp add: hd_rev)
    then have "dropWhile is_space (rev v) = rev v"
      using False by (simp add: dropWhile_eq_self_iff)
    then have "str_strip r = v" by (simp add: str_strip_def v_def)
    with r show ?thesis by metis
  qed
qed

lemma replace_double_colon:
  assumes "endswith (str_replace s ''Chapter :'' ''Chapter'') ''::''"
  shows "endswith s ''::''"
proof -
  obtain pre pre' t where
    h: "s = pre @ t" "str_replace s ''Chapter :'' ''Chapter'' = pre' @ t"
       "(pre = [] \<and> pre' = []) \<or> (\<exists>p'. pre' = p' @ ''Chapter'')"
    using str_replace_decomp [of s "''Chapter :''" "''Chapter''"] by blast
  from assms h(2) obtain x where x: "pre' @ t = x @ ''::''"
    by (auto simp: endswith_iff)
  from h(3) show ?thesis
  proof
    assume "pre = [] \<and> pre' = []"
    with h assms show ?thesis by simp
  next
    assume "\<exists>p'. pre' = p' @ ''Chapter''"
    then obtain p' where p': "pre' = p' @ ''Chapter''" ..
    show ?thesis
    proof (cases t rule: rev_cases)
      case Nil
      with x p' show ?thesis by simp
    next
      case (snoc t1 a)
      show ?thesis
      proof (cases t1 rule: rev_cases)
        case Nil
        with x p' snoc show ?thesis by simp
      next
        case (snoc t2 b)
        with x \<open>t = t1 @ [a]\<close> have "a = CHR '':''" "b = CHR '':''" by simp_all
        with snoc \<open>t = t1 @ [a]\<close> h(1) have "s = (pre @ t2) @ ''::''" by simp
        then show ?thesis unfolding endswith_iff by blast
      qed
    qed
  qed
qed

lemma label_trailing_colon:
  assumes "raw_title = str_strip t" and "endswith (mangafire_label [] raw_title) '':''"
  shows "endswith raw_title ''::''"
proof -
  define r where "r = str_replace raw_title ''Chapter :'' ''Chapter''"
  define name where "name = str_strip r"
  have lab: "mangafire_label [] raw_title = (if endswith name '':'' then butlast name else name)"
    by (simp add: mangafire_label_def name_def r_def)
  have e1: "endswith name '':''" using assms(2) lab by (cases "endswith name '':''") simp_all
  then have "endswith (butlast name) '':''" using assms(2) lab by simp
  then obtain y where "butlast name = y @ '':''" by (auto simp: endswith_iff)
  moreover from e1 have "name = butlast name @ '':''"
    by (metis append_butlast_last_id endswith_colon)
  ultimately have "name = y @ ''::''" by simp
  moreover have "stripped raw_title" using assms(1) by (simp add: stripped_strip)
  then have "r = [] \<or> \<not> is_space (last r)" by (rule replace_no_trailing_space) (simp add: r_def)
  then obtain lead where "r = lead @ name" using strip_suffix_of name_def by blast
  ultimately have "r = (lead @ y) @ ''::''" by simp
  then have "endswith r ''::''" unfolding endswith_iff by blast
  then show ?thesis unfolding r_def by (rule replace_double_colon)
qed

section \<open>Paging of the chapter list\<close>

lemma collect_replicate:
  "f x = Inr (Some y) \<Longrightarrow> collect f (replicate n x) = Inr (replicate n y)"
  by (induction n) simp_all

text \<open>
  C4: for a page number \<open>page \<ge> 1\<close>, when the site's one response parses to the full list
  of chapters, \<open>get_chapters\<close> returns the elements \<open>[(page - 1) * 20, page * 20)\<close> of that
  list: the twenty elements after the first \<open>(page - 1) * 20\<close>, fewer where the list ends.
  This holds for MangaFire (where the full list is the local \<open>chapters\<close>) and for
  MangaKatana (where it is what \<open>chapters_from_page\<close> returns).
\<close>

theorem get_chapters_page_slice:
  assumes "1 \<le> page"
  shows "(py_get data ''status'' JNull = Inr (JInt 200) \<longrightarrow>
          py_get data ''result'' (JStr []) = Inr html_content \<longrightarrow>
          select_items html_content = Inr items \<longrightarrow>
          collect (mangafire_chapter_of_item mangafire_label urljoin manga_card) items = Inr full \<longrightarrow>
          mangafire_get_chapters select_items urljoin manga_card (Inr data) page
            = take 20 (drop (nat ((page - 1) * 20)) full))
       \<and> (chapters_from_page rows manga_card = Inr full' \<longrightarrow>
          mangakatana_get_chapters rows manga_card page
            = Inr (take 20 (drop (nat ((page - 1) * 20)) full')))"
proof -
  have s: "py_slice xs ((page - 1) * 20) (page * 20) = take 20 (drop (nat ((page - 1) * 20)) xs)"
    for xs :: "manga_chapter list"
    using assms by (rule py_slice_page)
  show ?thesis
    unfolding mangafire_get_chapters_def mangafire_get_chapters_try_def
      mangakatana_get_chapters_def s
    by simp
qed

text \<open>
  The theorem at work: page 2 of 45 MangaKatana chapters is the twenty chapters 20 to 39,
  and page 3 of 45 MangaFire chapters is the last five.
\<close>

theorem get_chapters_page_slice_witness:
  "mangakatana_get_chapters (replicate 45 (Some \<lparr>a_href = Some ''/c'', a_text = '' Chapter 1 ''\<rparr>))
      \<lparr>card_name = ''m'', card_url = ''u'', card_picture_url = []\<rparr> 2
    = Inr (replicate 20 \<lparr>ch_name = ''Chapter 1'', ch_url = ''/c'',
         ch_manga = \<lparr>card_name = ''m'', card_url = ''u'', card_picture_url = []\<rparr>, ch_pictures = []\<rparr>)
   \<and> mangafire_get_chapters
        (\<lambda>v. Inr (replicate 45 \<lparr>li_link = Some \<lparr>a_href = Some ''/read/m.1/en/chapter-7'', a_text = []\<rparr>,
                     li_data_number = Some ''7'', li_span_text = Some '' The Duel ''\<rparr>))
        (\<lambda>b h. b @ h) \<lparr>card_name = ''m'', card_url = ''u'', card_picture_url = []\<rparr>
        (Inr (JDict [(''status'', JInt 200), (''result'', JStr ''<li>'')])) 3
    = replicate 5 \<lparr>ch_name = ''Chapter 7: The Duel'', ch_url = ''https://mangafire.to/read/m.1/en/chapter-7'',
         ch_manga = \<lparr>card_name = ''m'', card_url = ''u'', card_picture_url = []\<rparr>, ch_pictures = []\<rparr>"
proof -
  let ?c = "\<lparr>card_name = ''m'', card_url = ''u'', card_picture_url = []\<rparr>"
  let ?li = "\<lparr>li_link = Some \<lparr>a_href = Some ''/read/m.1/en/chapter-7'', a_text = []\<rparr>,
              li_data_number = Some ''7'', li_span_text = Some '' The Duel ''\<rparr>"
  let ?sel = "\<lambda>v::json. (Inr (replicate 45 ?li) :: error + li_item list)"
  let ?kch = "\<lparr>ch_name = ''Chapter 1'', ch_url = ''/c'', ch_manga = ?c, ch_pictures = []\<rparr>"
  let ?fch = "\<lparr>ch_name = ''Chapter 7: The Duel'', ch_url = ''https://mangafire.to/read/m.1/en/chapter-7'',
               ch_manga = ?c, ch_pictures = []\<rparr>"
  have k: "chapters_from_page (replicate 45 (Some \<lparr>a_href = Some ''/c'', a_text = '' Chapter 1 ''\<rparr>)) ?c
      = Inr (replicate 45 ?kch)"
    unfolding chapters_from_page_def
    by (rule collect_replicate)
       (simp add: mangakatana_chapter_of_row_def attr_def str_strip_def is_space_def)
  have f: "collect (mangafire_chapter_of_item mangafire_label (\<lambda>b h. b @ h) ?c) (replicate 45 ?li)
      = Inr (replicate 45 ?fch)"
    by (rule collect_replicate)
       (simp add: mangafire_chapter_of_item_def attr_def str_strip_def is_space_def
          mangafire_label_def mangafire_base_url_def startswith_def endswith_def)
  have p2: "(1::int) \<le> 2" and p3: "(1::int) \<le> 3" by simp_all
  from get_chapters_page_slice [OF p2, where data = JNull and html_content = JNull
      and select_items = "\<lambda>v. Inr []" and items = "[]" and urljoin = "\<lambda>b h. b" and manga_card = ?c
      and full = "[]" and rows = "replicate 45 (Some \<lparr>a_href = Some ''/c'', a_text = '' Chapter 1 ''\<rparr>)"
      and full' = "replicate 45 ?kch"] k
  have a: "mangakatana_get_chapters (replicate 45 (Some \<lparr>a_href = Some ''/c'', a_text = '' Chapter 1 ''\<rparr>)) ?c 2
     = Inr (replicate 20 ?kch)"
    by simp
  from get_chapters_page_slice [OF p3, where data = "JDict [(''status'', JInt 200), (''result'', JStr ''<li>'')]"
      and html_content = "JStr ''<li>''" and select_items = ?sel and items = "replicate 45 ?li"
      and urljoin = "\<lambda>b h. b @ h" and manga_card = ?c and full = "replicate 45 ?fch"
      and rows = "[]" and full' = "[]"] f
  have b: "mangafire_get_chapters ?sel (\<lambda>b h. b @ h) ?c
        (Inr (JDict [(''status'', JInt 200), (''result'', JStr ''<li>'')])) 3
    = replicate 5 ?fch"
    by simp
  from a b show ?thesis by simp
qed

section \<open>Labels of chapters without a number\<close>

lemma replace_stripped:
  assumes "stripped s"
  shows "stripped (str_replace s ''Chapter :'' ''Chapter'')"
proof (cases s)
  case Nil
  then show ?thesis by (simp add: stripped_def)
next
  case (Cons c cs)
  define r where "r = str_replace s ''Chapter :'' ''Chapter''"
  from assms Cons have c: "\<not> is_space c" by (simp add: stripped_def)
  have ne: "r \<noteq> []" and h: "\<not> is_space (hd r)"
    using c unfolding r_def Cons by (auto simp: is_space_def)
  from replace_no_trailing_space [OF assms r_def] ne have "\<not> is_space (last r)" by simp
  with h show ?thesis unfolding r_def [symmetric] by (simp add: stripped_def)
qed

text \<open>
  With no number, the label of \<open>get_chapters\<close> is the raw title after the replacement and
  the removal of one trailing colon: on a stripped title \<open>strip\<close> has nothing to remove.
\<close>

lemma label_without_number:
  assumes "raw_title = str_strip t"
  shows "mangafire_label [] raw_title =
     (let name = str_replace raw_title ''Chapter :'' ''Chapter''
      in if endswith name '':'' then butlast name else name)"
proof -
  have "stripped raw_title" using assms by (simp add: stripped_strip)
  then have "str_strip (str_replace raw_title ''Chapter :'' ''Chapter'')
      = str_replace raw_title ''Chapter :'' ''Chapter''"
    by (intro stripped_fix replace_stripped)
  then show ?thesis by (simp add: mangafire_label_def)
qed

text \<open>
  C10, as stated, fails on both counts: with no number the label is made from the site's
  raw title.  \<open>get_chapters\<close> drops one trailing colon only, so the raw title \<open>Extra::\<close>
  gives \<open>Extra:\<close>; \<open>iter_chapters\<close> drops none, so \<open>Extra:\<close> stays; and \<open>get_chapters\<close>
  turns the raw title \<open>Chapter :\<close> into the bare word \<open>Chapter\<close>.
\<close>

theorem empty_number_label_colon:
  "endswith (ch_name (hd (mangafire_get_chapters
       (\<lambda>v. Inr [\<lparr>li_link = Some \<lparr>a_href = Some ''/read/m.1/en/chapter-0'', a_text = []\<rparr>,
                    li_data_number = None, li_span_text = Some ''Extra::''\<rparr>])
       (\<lambda>b h. b @ h) \<lparr>card_name = ''m'', card_url = ''u'', card_picture_url = []\<rparr>
       (Inr (JDict [(''status'', JInt 200), (''result'', JStr ''<li>'')])) 1))) '':''
   \<and> endswith (ch_name (hd (mangafire_iter_chapters
       (\<lambda>v. Inr [\<lparr>li_link = Some \<lparr>a_href = Some ''/read/m.1/en/chapter-0'', a_text = []\<rparr>,
                    li_data_number = Some [], li_span_text = Some ''Extra:''\<rparr>])
       (\<lambda>b h. b @ h) ''u'' ''m''
       (Inr (JDict [(''status'', JInt 200), (''result'', JStr ''<li>'')]))))) '':''
   \<and> ch_name (hd (mangafire_get_chapters
       (\<lambda>v. Inr [\<lparr>li_link = Some \<lparr>a_href = Some ''/read/m.1/en/chapter-0'', a_text = []\<rparr>,
                    li_data_number = None, li_span_text = Some ''Chapter :''\<rparr>])
       (\<lambda>b h. b @ h) \<lparr>card_name = ''m'', card_url = ''u'', card_picture_url = []\<rparr>
       (Inr (JDict [(''status'', JInt 200), (''result'', JStr ''<li>'')])) 1)) = ''Chapter''"
proof -
  have a: "endswith (ch_name (hd (mangafire_get_chapters
       (\<lambda>v. Inr [\<lparr>li_link = Some \<lparr>a_href = Some ''/read/m.1/en/chapter-0'', a_text = []\<rparr>,
                    li_data_number = None, li_span_text = Some ''Extra::''\<rparr>])
       (\<lambda>b h. b @ h) \<lparr>card_name = ''m'', card_url = ''u'', card_picture_url = []\<rparr>
       (Inr (JDict [(''status'', JInt 200), (''result'', JStr ''<li>'')])) 1))) '':''"
    by (simp add: mangafire_get_chapters_def mangafire_get_chapters_try_def
        mangafire_chapter_of_item_def attr_def mangafire_label_def
        str_strip_def is_space_def startswith_def endswith_def py_slice_def)
  have b: "endswith (ch_name (hd (mangafire_iter_chapters
       (\<lambda>v. Inr [\<lparr>li_link = Some \<lparr>a_href = Some ''/read/m.1/en/chapter-0'', a_text = []\<rparr>,
                    li_data_number = Some [], li_span_text = Some ''Extra:''\<rparr>])
       (\<lambda>b h. b @ h) ''u'' ''m''
       (Inr (JDict [(''status'', JInt 200), (''result'', JStr ''<li>'')]))))) '':''"
    by (simp add: mangafire_iter_chapters_def mangafire_chapter_of_item_def attr_def
        mangafire_iter_label_def str_strip_def is_space_def endswith_def)
  have r: "str_replace ''Chapter :'' ''Chapter :'' ''Chapter'' = ''Chapter''"
    by (simp add: startswith_def)
  have s: "str_strip ''Chapter'' = ''Chapter''" "str_strip ''Chapter :'' = ''Chapter :''"
    by (simp_all add: str_strip_def is_space_def)
  have e: "\<not> endswith ''Chapter'' '':''"
    by (simp add: endswith_def)
  have l: "mangafire_label [] ''Chapter :'' = ''Chapter''"
    by (simp add: mangafire_label_def r s e del: str_replace.simps)
  have c: "ch_name (hd (mangafire_get_chapters
       (\<lambda>v. Inr [\<lparr>li_link = Some \<lparr>a_href = Some ''/read/m.1/en/chapter-0'', a_text = []\<rparr>,
                    li_data_number = None, li_span_text = Some ''Chapter :''\<rparr>])
       (\<lambda>b h. b @ h) \<lparr>card_name = ''m'', card_url = ''u'', card_picture_url = []\<rparr>
       (Inr (JDict [(''status'', JInt 200), (''result'', JStr ''<li>'')])) 1)) = ''Chapter''"
    by (simp add: mangafire_get_chapters_def mangafire_get_chapters_try_def
        mangafire_chapter_of_item_def attr_def s l py_slice_def)
  from a b c show ?thesis by (intro conjI)
qed

text \<open>
  C10, amended: for an item with a link, when the chapter number is empty or absent the
  label is computed from the raw title alone (the stripped text of the span, or the empty
  string).  The label of \<open>iter_chapters\<close> is the raw title.  The label of \<open>get_chapters\<close> is
  the raw title with every \<open>Chapter :\<close> replaced by \<open>Chapter\<close> and then one trailing colon,
  if there is one, removed.  Hence the label of \<open>get_chapters\<close> ends with a colon only if
  the raw title ends with two colons, and it is the raw title itself whenever the raw
  title contains no colon.
\<close>

theorem empty_number_label:
  assumes "li_data_number item = None \<or> li_data_number item = Some []"
    and "li_link item = Some link" and "a_href link = Some href"
    and "raw_title = (case li_span_text item of None \<Rightarrow> [] | Some t \<Rightarrow> str_strip t)"
  shows "\<exists>c c'. mangafire_chapter_of_item mangafire_iter_label urljoin manga_card item = Inr (Some c)
       \<and> mangafire_chapter_of_item mangafire_label urljoin manga_card item = Inr (Some c')
       \<and> ch_name c = raw_title
       \<and> ch_name c' =
           (let name = str_replace raw_title ''Chapter :'' ''Chapter''
            in if endswith name '':'' then butlast name else name)
       \<and> (endswith (ch_name c') '':'' \<longrightarrow> endswith raw_title ''::'')
       \<and> (CHR '':'' \<notin> set raw_title \<longrightarrow> ch_name c' = raw_title)"
proof -
  have n: "(case li_data_number item of None \<Rightarrow> [] | Some n \<Rightarrow> n) = []"
    using assms(1) by auto
  have st: "\<exists>t. raw_title = str_strip t"
  proof (cases "li_span_text item")
    case None
    then have "raw_title = str_strip []" using assms(4) by (simp add: str_strip_def)
    then show ?thesis ..
  next
    case (Some t)
    then have "raw_title = str_strip t" using assms(4) by simp
    then show ?thesis ..
  qed
  then obtain t where t: "raw_title = str_strip t" ..
  let ?c = "\<lparr>ch_name = mangafire_iter_label [] raw_title, ch_url = urljoin mangafire_base_url href,
             ch_manga = manga_card, ch_pictures = []\<rparr>"
  let ?c' = "\<lparr>ch_name = mangafire_label [] raw_title, ch_url = urljoin mangafire_base_url href,
             ch_manga = manga_card, ch_pictures = []\<rparr>"
  have 1: "mangafire_chapter_of_item mangafire_iter_label urljoin manga_card item = Inr (Some ?c)"
    using assms(2,3,4) n by (simp add: mangafire_chapter_of_item_def attr_def)
  have 2: "mangafire_chapter_of_item mangafire_label urljoin manga_card item = Inr (Some ?c')"
    using assms(2,3,4) n by (simp add: mangafire_chapter_of_item_def attr_def)
  have 3: "ch_name ?c = raw_title"
    using label_no_colon [OF refl t] by simp
  have 4: "ch_name ?c' =
           (let name = str_replace raw_title ''Chapter :'' ''Chapter''
            in if endswith name '':'' then butlast name else name)"
    using label_without_number [OF t] by simp
  have 5: "endswith (ch_name ?c') '':'' \<longrightarrow> endswith raw_title ''::''"
    using label_trailing_colon [OF t] by simp
  have 6: "CHR '':'' \<notin> set raw_title \<longrightarrow> ch_name ?c' = raw_title"
    using label_no_colon [OF refl t] by simp
  show ?thesis
    by (intro exI [of _ ?c] exI [of _ ?c'] conjI) (fact 1 2 3 4 5 6)+
qed

text \<open>
  The theorem at work: with no number, the span text \<open>Side Story\<close> between two no-break
  spaces gives the label \<open>Side Story\<close> in both listings.
\<close>

theorem empty_number_label_witness:
  "\<exists>c c'. mangafire_chapter_of_item mangafire_iter_label (\<lambda>b h. b @ h)
             \<lparr>card_name = ''m'', card_url = ''u'', card_picture_url = []\<rparr>
             \<lparr>li_link = Some \<lparr>a_href = Some ''/read/m.1/en/chapter-0'', a_text = []\<rparr>,
              li_data_number = None, li_span_text = Some (CHR 0xA0 # ''Side Story'' @ [CHR 0xA0])\<rparr>
               = Inr (Some c)
       \<and> mangafire_chapter_of_item mangafire_label (\<lambda>b h. b @ h)
             \<lparr>card_name = ''m'', card_url = ''u'', card_picture_url = []\<rparr>
             \<lparr>li_link = Some \<lparr>a_href = Some ''/read/m.1/en/chapter-0'', a_text = []\<rparr>,
              li_data_number = None, li_span_text = Some (CHR 0xA0 # ''Side Story'' @ [CHR 0xA0])\<rparr>
               = Inr (Some c')
       \<and> ch_name c = ''Side Story'' \<and> ch_name c' = ''Side Story''"
proof -
  let ?item = "\<lparr>li_link = Some \<lparr>a_href = Some ''/read/m.1/en/chapter-0'', a_text = []\<rparr>,
              li_data_number = None, li_span_text = Some (CHR 0xA0 # ''Side Story'' @ [CHR 0xA0])\<rparr>"
  let ?card = "\<lparr>card_name = ''m'', card_url = ''u'', card_picture_url = []\<rparr>"
  have r: "''Side Story'' = (case li_span_text ?item of None \<Rightarrow> [] | Some t \<Rightarrow> str_strip t)"
    by (simp add: str_strip_def is_space_def)
  have d: "li_data_number ?item = None \<or> li_data_number ?item = Some []" by simp
  have "\<exists>c c'. mangafire_chapter_of_item mangafire_iter_label (\<lambda>b h. b @ h) ?card ?item = Inr (Some c)
       \<and> mangafire_chapter_of_item mangafire_label (\<lambda>b h. b @ h) ?card ?item = Inr (Some c')
       \<and> ch_name c = ''Side Story''
       \<and> ch_name c' =
           (let name = str_replace ''Side Story'' ''Chapter :'' ''Chapter''
            in if endswith name '':'' then butlast name else name)
       \<and> (endswith (ch_name c') '':'' \<longrightarrow> endswith ''Side Story'' ''::'')
       \<and> (CHR '':'' \<notin> set ''Side Story'' \<longrightarrow> ch_name c' = ''Side Story'')"
    by (rule empty_number_label [OF d _ _ r,
          where link = "\<lparr>a_href = Some ''/read/m.1/en/chapter-0'', a_text = []\<rparr>"
            and href = "''/read/m.1/en/chapter-0''"])
       simp_all
  then obtain c c' where
    h: "mangafire_chapter_of_item mangafire_iter_label (\<lambda>b h. b @ h) ?card ?item = Inr (Some c)"
       "mangafire_chapter_of_item mangafire_label (\<lambda>b h. b @ h) ?card ?item = Inr (Some c')"
       "ch_name c = ''Side Story''"
       "CHR '':'' \<notin> set ''Side Story'' \<longrightarrow> ch_name c' = ''Side Story''"
    by blast
  from h(4) have "ch_name c' = ''Side Story''" by simp
  with h(1-3) show ?thesis by blast
qed

section \<open>The tiling and the loops of the descrambling\<close>

lemma axis_geometry:
  assumes "0 < W"
  shows "axis_ok W (min PIECE_SIZE ((W + MIN_SPLIT_COUNT - 1) div MIN_SPLIT_COUNT))
           ((W + min PIECE_SIZE ((W + MIN_SPLIT_COUNT - 1) div MIN_SPLIT_COUNT) - 1)
              div min PIECE_SIZE ((W + MIN_SPLIT_COUNT - 1) div MIN_SPLIT_COUNT) - 1)"
proof -
  define pw where "pw = min PIECE_SIZE ((W + MIN_SPLIT_COUNT - 1) div MIN_SPLIT_COUNT)"
  define n where "n = (W + pw - 1) div pw"
  have "1 \<le> (W + 4) div 5" using assms by linarith
  then have pw: "0 < pw" by (simp add: pw_def PIECE_SIZE_def MIN_SPLIT_COUNT_def)
  define r where "r = (W + pw - 1) mod pw"
  define t where "t = pw * n"
  have e: "t + r = W + pw - 1"
    unfolding n_def r_def t_def by (rule mult_div_mod_eq)
  have b: "0 \<le> r" "r < pw"
    using pw by (simp_all add: r_def)
  have n1: "1 \<le> n"
  proof (rule ccontr)
    assume "\<not> 1 \<le> n"
    then have "n \<le> 0" by simp
    then have "t \<le> 0" using pw by (simp add: t_def mult_le_0_iff)
    with e b assms show False by linarith
  qed
  have t1: "pw * (n - 1) = t - pw" and t2: "pw * (n - 1 + 1) = t"
    by (simp_all add: algebra_simps t_def)
  have "t - pw < W" "W \<le> t" using e b by linarith+
  with n1 pw have "0 < pw \<and> 0 \<le> n - 1 \<and> pw * (n - 1) < W \<and> W \<le> pw * (n - 1 + 1)"
    unfolding t1 t2 by simp
  then have "axis_ok W pw (n - 1)" unfolding axis_ok_def .
  then show ?thesis unfolding n_def pw_def .
qed

lemma tile_src_range:
  assumes "0 \<le> x" "x \<le> m"
  shows "0 \<le> tile_src m off x \<and> tile_src m off x \<le> m \<and> (tile_src m off x = m \<longleftrightarrow> x = m)"
proof (cases "x = m")
  case True
  with assms show ?thesis by (simp add: tile_src_def)
next
  case False
  with assms have m: "0 < m" by simp
  then have "0 \<le> (m - x + off) mod m" "(m - x + off) mod m < m" by simp_all
  with False show ?thesis by (simp add: tile_src_def)
qed

lemma tile_src_invol:
  assumes "0 \<le> x" "x \<le> m"
  shows "tile_src m off (tile_src m off x) = x"
proof (cases "x = m")
  case True
  then show ?thesis by (simp add: tile_src_def)
next
  case False
  with assms have m: "0 < m" and xm: "x < m" by simp_all
  have r: "tile_src m off x \<noteq> m" using tile_src_range [OF assms] False by simp
  have "tile_src m off (tile_src m off x) = (m + off - (m - x + off) mod m) mod m"
    using r False by (simp add: tile_src_def algebra_simps)
  also have "\<dots> = (m + off - (m - x + off)) mod m"
    by (rule mod_diff_right_eq)
  also have "\<dots> = x mod m" by (simp add: algebra_simps)
  also have "\<dots> = x" using assms xm by simp
  finally show ?thesis .
qed

lemma src_idx_ok:
  assumes "0 \<le> x" "x \<le> m"
  shows "src_idx x m off = Inr (tile_src m off x)"
  using assms by (auto simp: src_idx_def tile_src_def py_mod_def)

lemma div_eq_iff_range:
  assumes "0 < (pw::int)"
  shows "p div pw = x \<longleftrightarrow> pw * x \<le> p \<and> p < pw * x + pw"
proof
  assume x: "p div pw = x"
  have "pw * (p div pw) + p mod pw = p" by (rule mult_div_mod_eq)
  moreover have "0 \<le> p mod pw" "p mod pw < pw" using assms by simp_all
  ultimately show "pw * x \<le> p \<and> p < pw * x + pw" unfolding x by linarith
next
  assume "pw * x \<le> p \<and> p < pw * x + pw"
  then have "p = pw * x + (p - pw * x)" "0 \<le> p - pw * x" "p - pw * x < pw" by simp_all
  then show "p div pw = x" by (rule int_div_pos_eq)
qed

lemma mod_eq_offset:
  assumes "0 < (pw::int)" "p div pw = x"
  shows "p mod pw = p - pw * x"
  using mult_div_mod_eq [of pw p] assms(2) by simp

text \<open>The rectangle of tile \<open>x\<close> along one axis is the set of coordinates whose quotient is \<open>x\<close>.\<close>

lemma tile_cover:
  assumes "axis_ok W pw m" "0 \<le> x" "x \<le> m"
  shows "(pw * x \<le> p \<and> p < pw * x + min pw (W - pw * x)) \<longleftrightarrow> (0 \<le> p \<and> p < W \<and> p div pw = x)"
proof -
  from assms(1) have pw: "0 < pw" and m: "pw * m < W" "W \<le> pw * (m + 1)"
    by (simp_all add: axis_ok_def)
  have x0: "0 \<le> pw * x" using pw assms(2) by simp
  have d: "p div pw = x \<longleftrightarrow> pw * x \<le> p \<and> p < pw * x + pw" by (rule div_eq_iff_range [OF pw])
  show ?thesis
  proof (cases "x = m")
    case True
    have "pw * (m + 1) = pw * m + pw" by (simp add: algebra_simps)
    with m True x0 show ?thesis unfolding d by auto
  next
    case False
    with assms(3) have "x + 1 \<le> m" by simp
    then have "pw * (x + 1) \<le> pw * m" using pw by (simp add: mult_le_cancel_left)
    then have "pw * x + pw \<le> pw * m" by (simp add: algebra_simps)
    with m x0 show ?thesis unfolding d by auto
  qed
qed

lemma pixel_src_props:
  assumes "axis_ok W pw m" "0 \<le> p" "p < W"
  shows "0 \<le> p div pw" "p div pw \<le> m"
    "0 \<le> pixel_src pw m off p" "pixel_src pw m off p < W"
    "pixel_src pw m off p div pw = tile_src m off (p div pw)"
    "pixel_src pw m off p mod pw = p mod pw"
proof -
  from assms(1) have pw: "0 < pw" and m: "pw * m < W" "W \<le> pw * (m + 1)" "0 \<le> m"
    by (simp_all add: axis_ok_def)
  define x where "x = p div pw"
  define r where "r = p mod pw"
  define sx where "sx = tile_src m off x"
  have r: "0 \<le> r" "r < pw" using pw by (simp_all add: r_def)
  have p: "pw * x + r = p" unfolding x_def r_def by (rule mult_div_mod_eq)
  show x0: "0 \<le> p div pw" using assms(2) pw by (simp add: pos_imp_zdiv_nonneg_iff)
  show xm: "p div pw \<le> m"
  proof (rule ccontr)
    assume "\<not> p div pw \<le> m"
    then have "m + 1 \<le> x" by (simp add: x_def)
    then have "pw * (m + 1) \<le> pw * x" using pw by (simp add: mult_le_cancel_left)
    with p r m assms(3) show False by linarith
  qed
  have s: "0 \<le> sx" "sx \<le> m" "sx = m \<longleftrightarrow> x = m"
    using tile_src_range [of x m off] x0 xm by (simp_all add: sx_def x_def)
  have ps: "pixel_src pw m off p = pw * sx + r"
    by (simp add: pixel_src_def sx_def x_def r_def)
  show "0 \<le> pixel_src pw m off p" using s(1) r pw by (simp add: ps)
  show "pixel_src pw m off p < W"
  proof (cases "x = m")
    case True
    then have "sx = x" using s by simp
    with p assms(3) show ?thesis by (simp add: ps)
  next
    case False
    then have "sx + 1 \<le> m" using s by simp
    then have "pw * (sx + 1) \<le> pw * m" using pw by (simp add: mult_le_cancel_left)
    then have "pw * sx + pw \<le> pw * m" by (simp add: algebra_simps)
    with r m show ?thesis by (simp add: ps)
  qed
  show "pixel_src pw m off p div pw = tile_src m off (p div pw)"
    unfolding ps sx_def [symmetric] x_def [symmetric]
    using r by (intro int_div_pos_eq [of _ pw sx r]) simp_all
  show "pixel_src pw m off p mod pw = p mod pw"
    unfolding ps r_def [symmetric]
    using r by (intro int_mod_pos_eq [of _ pw sx r]) simp_all
qed

lemma pixel_src_invol:
  assumes "axis_ok W pw m" "0 \<le> p" "p < W"
  shows "pixel_src pw m off (pixel_src pw m off p) = p"
proof -
  note q = pixel_src_props [OF assms]
  have "pixel_src pw m off (pixel_src pw m off p)
      = pw * tile_src m off (tile_src m off (p div pw)) + p mod pw"
    unfolding pixel_src_def [of pw m off "pixel_src pw m off p"] q(5) q(6) ..
  also have "\<dots> = pw * (p div pw) + p mod pw"
    using tile_src_invol [OF q(1) q(2)] by simp
  finally show ?thesis by simp
qed

text \<open>
  A loop whose body never raises on the elements of the list and overwrites what it
  covers with a value that does not depend on the iteration.
\<close>

lemma for_each_cover:
  assumes "\<And>a s. a \<in> set xs \<Longrightarrow> I s \<Longrightarrow>
      \<exists>s'. body a s = Inr s' \<and> I s'
         \<and> (\<forall>k. rd s' k = (if cover a k then val k else rd s k))"
    and "I s"
  shows "\<exists>s'. for_each body xs s = Inr s' \<and> I s'
         \<and> (\<forall>k. rd s' k = (if \<exists>a\<in>set xs. cover a k then val k else rd s k))"
  using assms
proof (induction xs arbitrary: s)
  case Nil
  then show ?case by simp
next
  case (Cons a xs)
  from Cons.prems(1) [of a s] Cons.prems(2) obtain s1 where
    s1: "body a s = Inr s1" "I s1"
        "\<And>k. rd s1 k = (if cover a k then val k else rd s k)"
    by auto
  have "\<exists>s'. for_each body xs s1 = Inr s' \<and> I s'
         \<and> (\<forall>k. rd s' k = (if \<exists>a\<in>set xs. cover a k then val k else rd s1 k))"
    by (rule Cons.IH) (simp_all add: Cons.prems(1) s1(2))
  then obtain s2 where
    s2: "for_each body xs s1 = Inr s2" "I s2"
        "\<And>k. rd s2 k = (if \<exists>a\<in>set xs. cover a k then val k else rd s1 k)"
    by auto
  have "for_each body (a # xs) s = Inr s2" using s1(1) s2(1) by simp
  moreover have "\<forall>k. rd s2 k = (if \<exists>b\<in>set (a # xs). cover b k then val k else rd s k)"
    using s1(3) s2(3) by auto
  ultimately show ?case using s2(2) by blast
qed

lemma set_py_range: "set (py_range (m + 1)) = {0..m}"
  by (simp add: py_range_def)

lemma axis_ok_len: "0 < W \<Longrightarrow> axis_ok W (piece_len W) (idx_max W)"
  unfolding piece_len_def idx_max_def by (rule axis_geometry)

lemma descramble_tile_step:
  fixes img r :: "'p image"
  assumes ax: "axis_ok W pw mx" and ay: "axis_ok H ph my"
    and img: "img_width img = W" "img_height img = H"
    and res: "img_width r = W \<and> img_height r = H"
    and x: "0 \<le> x" "x \<le> mx" and y: "0 \<le> y" "y \<le> my"
  shows "\<exists>r'. descramble_tile blank img off (pw, ph) (mx, my) y x r = Inr r'
      \<and> (img_width r' = W \<and> img_height r' = H)
      \<and> (\<forall>k. img_pixel r' (fst k) (snd k) =
            (if (0 \<le> fst k \<and> fst k < W \<and> fst k div pw = x)
                \<and> (0 \<le> snd k \<and> snd k < H \<and> snd k div ph = y)
             then img_pixel img (pixel_src pw mx off (fst k)) (pixel_src ph my off (snd k))
             else img_pixel r (fst k) (snd k)))"
proof -
  define sx where "sx = tile_src mx off x"
  define sy where "sy = tile_src my off y"
  define w where "w = min pw (W - pw * x)"
  define h where "h = min ph (H - ph * y)"
  define r' where "r' = paste r (crop blank img (pw * sx, ph * sy, pw * sx + w, ph * sy + h)) (pw * x, ph * y)"
  from ax ay have pw: "0 < pw" and ph: "0 < ph" by (simp_all add: axis_ok_def)
  have run: "descramble_tile blank img off (pw, ph) (mx, my) y x r = Inr r'"
    by (simp add: descramble_tile_def src_idx_ok [OF x] src_idx_ok [OF y] Let_def img
        r'_def sx_def sy_def w_def h_def)
  have size: "img_width r' = W \<and> img_height r' = H"
    using res by (simp add: r'_def paste_def)
  have px: "img_pixel r' p q =
            (if (0 \<le> p \<and> p < W \<and> p div pw = x) \<and> (0 \<le> q \<and> q < H \<and> q div ph = y)
             then img_pixel img (pixel_src pw mx off p) (pixel_src ph my off q)
             else img_pixel r p q)" for p q
  proof (cases "(0 \<le> p \<and> p < W \<and> p div pw = x) \<and> (0 \<le> q \<and> q < H \<and> q div ph = y)")
    case True
    then have cp: "pw * x \<le> p \<and> p < pw * x + w" and cq: "ph * y \<le> q \<and> q < ph * y + h"
      using tile_cover [OF ax x, of p] tile_cover [OF ay y, of q] by (simp_all add: w_def h_def)
    from True have p: "0 \<le> p" "p < W" "p div pw = x" and q: "0 \<le> q" "q < H" "q div ph = y"
      by simp_all
    have sp: "pixel_src pw mx off p = pw * sx + (p - pw * x)"
      using mod_eq_offset [OF pw p(3)] p(3) by (simp add: pixel_src_def sx_def)
    have sq: "pixel_src ph my off q = ph * sy + (q - ph * y)"
      using mod_eq_offset [OF ph q(3)] q(3) by (simp add: pixel_src_def sy_def)
    note bp = pixel_src_props(3,4) [OF ax p(1,2), of off]
    note bq = pixel_src_props(3,4) [OF ay q(1,2), of off]
    have "img_pixel r' p q = img_pixel img (pw * sx + (p - pw * x)) (ph * sy + (q - ph * y))"
      using cp cq p q res bp bq unfolding sp sq
      by (simp add: r'_def paste_def crop_def img)
    with True show ?thesis by (simp add: sp sq)
  next
    case False
    then have "\<not> ((pw * x \<le> p \<and> p < pw * x + w) \<and> (ph * y \<le> q \<and> q < ph * y + h))"
      using tile_cover [OF ax x, of p] tile_cover [OF ay y, of q] by (simp add: w_def h_def)
    then have "img_pixel r' p q = img_pixel r p q"
      by (auto simp add: r'_def paste_def crop_def)
    then show ?thesis using False by (simp only: if_not_P if_False)
  qed
  from run size px show ?thesis by blast
qed

text \<open>
  The two nested loops over the tiles, for any loop body that writes, at \<open>(x, y)\<close>, the
  tile with indices \<open>(dx x, dy y)\<close>, where \<open>dx\<close> and \<open>dy\<close> reach every index.
\<close>

lemma tiles_row:
  fixes r :: "'p image"
  assumes step: "\<And>x (s :: 'p image). 0 \<le> x \<Longrightarrow> x \<le> mx \<Longrightarrow> img_width s = W \<and> img_height s = H \<Longrightarrow>
      \<exists>s'. tile x s = Inr s' \<and> (img_width s' = W \<and> img_height s' = H)
        \<and> (\<forall>k. img_pixel s' (fst k) (snd k) =
              (if (0 \<le> fst k \<and> fst k < W \<and> fst k div pw = dx x) \<and> rowc k
               then val k else img_pixel s (fst k) (snd k)))"
    and onto: "\<And>d. 0 \<le> d \<Longrightarrow> d \<le> mx \<Longrightarrow> \<exists>x. 0 \<le> x \<and> x \<le> mx \<and> dx x = d"
    and ax: "axis_ok W pw mx"
    and res: "img_width r = W \<and> img_height r = H"
  shows "\<exists>r'. for_each tile (py_range (mx + 1)) r = Inr r'
      \<and> (img_width r' = W \<and> img_height r' = H)
      \<and> (\<forall>k. img_pixel r' (fst k) (snd k) =
            (if (0 \<le> fst k \<and> fst k < W) \<and> rowc k
             then val k else img_pixel r (fst k) (snd k)))"
proof -
  have c: "(\<exists>x\<in>set (py_range (mx + 1)). (0 \<le> fst k \<and> fst k < W \<and> fst k div pw = dx x) \<and> rowc k)
        \<longleftrightarrow> ((0 \<le> fst k \<and> fst k < W) \<and> rowc k)"
    for k :: "int \<times> int"
  proof
    assume "\<exists>x\<in>set (py_range (mx + 1)). (0 \<le> fst k \<and> fst k < W \<and> fst k div pw = dx x) \<and> rowc k"
    then show "(0 \<le> fst k \<and> fst k < W) \<and> rowc k" by blast
  next
    assume h: "(0 \<le> fst k \<and> fst k < W) \<and> rowc k"
    then have "0 \<le> fst k div pw" "fst k div pw \<le> mx"
      using pixel_src_props(1,2) [OF ax, of "fst k"] by simp_all
    from onto [OF this] obtain x where "0 \<le> x" "x \<le> mx" "dx x = fst k div pw" by blast
    then have "x \<in> set (py_range (mx + 1))" "fst k div pw = dx x" by (simp_all add: set_py_range)
    with h show "\<exists>x\<in>set (py_range (mx + 1)). (0 \<le> fst k \<and> fst k < W \<and> fst k div pw = dx x) \<and> rowc k"
      by blast
  qed
  have "\<exists>r'. for_each tile (py_range (mx + 1)) r = Inr r'
      \<and> (img_width r' = W \<and> img_height r' = H)
      \<and> (\<forall>k. img_pixel r' (fst k) (snd k) =
            (if \<exists>x\<in>set (py_range (mx + 1)). (0 \<le> fst k \<and> fst k < W \<and> fst k div pw = dx x) \<and> rowc k
             then val k else img_pixel r (fst k) (snd k)))"
  proof (rule for_each_cover [where I = "\<lambda>s::'p image. img_width s = W \<and> img_height s = H"
        and rd = "\<lambda>s k. img_pixel s (fst k) (snd k)"])
    fix x and s :: "'p image"
    assume "x \<in> set (py_range (mx + 1))" and s: "img_width s = W \<and> img_height s = H"
    then have x: "0 \<le> x" "x \<le> mx" by (simp_all add: set_py_range)
    show "\<exists>s'. tile x s = Inr s' \<and> (img_width s' = W \<and> img_height s' = H)
        \<and> (\<forall>k. img_pixel s' (fst k) (snd k) =
              (if (0 \<le> fst k \<and> fst k < W \<and> fst k div pw = dx x) \<and> rowc k
               then val k else img_pixel s (fst k) (snd k)))"
      by (rule step [OF x s])
  next
    show "img_width r = W \<and> img_height r = H" by (rule res)
  qed
  then show ?thesis unfolding c .
qed

lemma tiles_rows:
  fixes r :: "'p image"
  assumes step: "\<And>x y (s :: 'p image). 0 \<le> x \<Longrightarrow> x \<le> mx \<Longrightarrow> 0 \<le> y \<Longrightarrow> y \<le> my
        \<Longrightarrow> img_width s = W \<and> img_height s = H \<Longrightarrow>
      \<exists>s'. tile y x s = Inr s' \<and> (img_width s' = W \<and> img_height s' = H)
        \<and> (\<forall>k. img_pixel s' (fst k) (snd k) =
              (if (0 \<le> fst k \<and> fst k < W \<and> fst k div pw = dx x)
                  \<and> (0 \<le> snd k \<and> snd k < H \<and> snd k div ph = dy y)
               then val k else img_pixel s (fst k) (snd k)))"
    and ontox: "\<And>d. 0 \<le> d \<Longrightarrow> d \<le> mx \<Longrightarrow> \<exists>x. 0 \<le> x \<and> x \<le> mx \<and> dx x = d"
    and ontoy: "\<And>d. 0 \<le> d \<Longrightarrow> d \<le> my \<Longrightarrow> \<exists>y. 0 \<le> y \<and> y \<le> my \<and> dy y = d"
    and ax: "axis_ok W pw mx" and ay: "axis_ok H ph my"
    and res: "img_width r = W \<and> img_height r = H"
  shows "\<exists>r'. for_each (\<lambda>y. for_each (tile y) (py_range (mx + 1))) (py_range (my + 1)) r = Inr r'
      \<and> (img_width r' = W \<and> img_height r' = H)
      \<and> (\<forall>k. img_pixel r' (fst k) (snd k) =
            (if (0 \<le> fst k \<and> fst k < W) \<and> (0 \<le> snd k \<and> snd k < H)
             then val k else img_pixel r (fst k) (snd k)))"
proof -
  have c: "(\<exists>y\<in>set (py_range (my + 1)).
              (0 \<le> fst k \<and> fst k < W) \<and> (0 \<le> snd k \<and> snd k < H \<and> snd k div ph = dy y))
        \<longleftrightarrow> ((0 \<le> fst k \<and> fst k < W) \<and> (0 \<le> snd k \<and> snd k < H))"
    for k :: "int \<times> int"
  proof
    assume "\<exists>y\<in>set (py_range (my + 1)).
              (0 \<le> fst k \<and> fst k < W) \<and> (0 \<le> snd k \<and> snd k < H \<and> snd k div ph = dy y)"
    then show "(0 \<le> fst k \<and> fst k < W) \<and> (0 \<le> snd k \<and> snd k < H)" by blast
  next
    assume h: "(0 \<le> fst k \<and> fst k < W) \<and> (0 \<le> snd k \<and> snd k < H)"
    then have "0 \<le> snd k div ph" "snd k div ph \<le> my"
      using pixel_src_props(1,2) [OF ay, of "snd k"] by simp_all
    from ontoy [OF this] obtain y where "0 \<le> y" "y \<le> my" "dy y = snd k div ph" by blast
    then have "y \<in> set (py_range (my + 1))" "snd k div ph = dy y" by (simp_all add: set_py_range)
    with h show "\<exists>y\<in>set (py_range (my + 1)).
              (0 \<le> fst k \<and> fst k < W) \<and> (0 \<le> snd k \<and> snd k < H \<and> snd k div ph = dy y)"
      by blast
  qed
  have "\<exists>r'. for_each (\<lambda>y. for_each (tile y) (py_range (mx + 1))) (py_range (my + 1)) r = Inr r'
      \<and> (img_width r' = W \<and> img_height r' = H)
      \<and> (\<forall>k. img_pixel r' (fst k) (snd k) =
            (if \<exists>y\<in>set (py_range (my + 1)).
                  (0 \<le> fst k \<and> fst k < W) \<and> (0 \<le> snd k \<and> snd k < H \<and> snd k div ph = dy y)
             then val k else img_pixel r (fst k) (snd k)))"
  proof (rule for_each_cover [where I = "\<lambda>s::'p image. img_width s = W \<and> img_height s = H"
        and rd = "\<lambda>s k. img_pixel s (fst k) (snd k)"])
    fix y and s :: "'p image"
    assume "y \<in> set (py_range (my + 1))" and s: "img_width s = W \<and> img_height s = H"
    then have y: "0 \<le> y" "y \<le> my" by (simp_all add: set_py_range)
    show "\<exists>s'. for_each (tile y) (py_range (mx + 1)) s = Inr s'
       \<and> (img_width s' = W \<and> img_height s' = H)
       \<and> (\<forall>k. img_pixel s' (fst k) (snd k) =
            (if (0 \<le> fst k \<and> fst k < W) \<and> (0 \<le> snd k \<and> snd k < H \<and> snd k div ph = dy y)
             then val k else img_pixel s (fst k) (snd k)))"
      by (rule tiles_row [where dx = dx and pw = pw, OF step [OF _ _ y] ontox ax s])
  next
    show "img_width r = W \<and> img_height r = H" by (rule res)
  qed
  then show ?thesis unfolding c .
qed

lemma descramble_rows:
  fixes img r :: "'p image"
  assumes ax: "axis_ok W pw mx" and ay: "axis_ok H ph my"
    and img: "img_width img = W" "img_height img = H"
    and res: "img_width r = W \<and> img_height r = H"
  shows "\<exists>r'. for_each (\<lambda>y. for_each (descramble_tile blank img off (pw, ph) (mx, my) y) (py_range (mx + 1)))
               (py_range (my + 1)) r = Inr r'
      \<and> (img_width r' = W \<and> img_height r' = H)
      \<and> (\<forall>k. img_pixel r' (fst k) (snd k) =
            (if (0 \<le> fst k \<and> fst k < W) \<and> (0 \<le> snd k \<and> snd k < H)
             then img_pixel img (pixel_src pw mx off (fst k)) (pixel_src ph my off (snd k))
             else img_pixel r (fst k) (snd k)))"
  by (rule tiles_rows [where dx = "\<lambda>x. x" and dy = "\<lambda>y. y" and pw = pw and ph = ph,
        OF descramble_tile_step [OF ax ay img] _ _ ax ay res]) auto

lemma descramble_run:
  fixes img :: "'p image"
  assumes "0 < img_width img" "0 < img_height img"
  shows "descramble blank img off =
     for_each (\<lambda>y. for_each (descramble_tile blank img off
                   (piece_len (img_width img), piece_len (img_height img))
                   (idx_max (img_width img), idx_max (img_height img)) y)
                 (py_range (idx_max (img_width img) + 1)))
       (py_range (idx_max (img_height img) + 1))
       (new_image blank (img_width img) (img_height img))"
proof -
  have "0 < piece_len (img_width img)" "0 < piece_len (img_height img)"
    using axis_ok_len assms by (simp_all add: axis_ok_def)
  then have nz: "piece_len (img_width img) \<noteq> 0" "piece_len (img_height img) \<noteq> 0"
    by simp_all
  have c5: "ceil_div a MIN_SPLIT_COUNT = Inr ((a + MIN_SPLIT_COUNT - 1) div MIN_SPLIT_COUNT)" for a
    by (simp add: ceil_div_def MIN_SPLIT_COUNT_def)
  have cp: "ceil_div a (piece_len a) = Inr (idx_max a + 1)" if "piece_len a \<noteq> 0" for a
    using that by (simp add: ceil_div_def idx_max_def)
  show ?thesis
    unfolding descramble_def Let_def c5 sum.case piece_len_def [symmetric] cp [OF nz(1)] cp [OF nz(2)]
    by simp
qed

lemma descramble_pixels:
  fixes img :: "'p image"
  assumes "0 < img_width img" "0 < img_height img"
  shows "\<exists>r. descramble blank img off = Inr r
      \<and> img_width r = img_width img \<and> img_height r = img_height img
      \<and> (\<forall>p q. 0 \<le> p \<and> p < img_width img \<and> 0 \<le> q \<and> q < img_height img \<longrightarrow>
            img_pixel r p q =
              img_pixel img (pixel_src (piece_len (img_width img)) (idx_max (img_width img)) off p)
                            (pixel_src (piece_len (img_height img)) (idx_max (img_height img)) off q))"
proof -
  let ?W = "img_width img" and ?H = "img_height img"
  let ?n = "new_image blank ?W ?H"
  have n: "img_width ?n = ?W \<and> img_height ?n = ?H" by (simp add: new_image_def)
  from descramble_rows [OF axis_ok_len [OF assms(1)] axis_ok_len [OF assms(2)] refl refl n, of blank off]
  obtain r where r: "descramble blank img off = Inr r" "img_width r = ?W \<and> img_height r = ?H"
    "\<And>k. img_pixel r (fst k) (snd k) =
            (if (0 \<le> fst k \<and> fst k < ?W) \<and> (0 \<le> snd k \<and> snd k < ?H)
             then img_pixel img (pixel_src (piece_len ?W) (idx_max ?W) off (fst k))
                                (pixel_src (piece_len ?H) (idx_max ?H) off (snd k))
             else img_pixel ?n (fst k) (snd k))"
    unfolding descramble_run [OF assms, symmetric] by blast
  have "img_pixel r p q = img_pixel img (pixel_src (piece_len ?W) (idx_max ?W) off p)
                                (pixel_src (piece_len ?H) (idx_max ?H) off q)"
    if "0 \<le> p \<and> p < ?W \<and> 0 \<le> q \<and> q < ?H" for p q
    using r(3) [of "(p, q)"] that by simp
  with r(1,2) show ?thesis by blast
qed

section \<open>The descrambling transform\<close>

text \<open>
  C1: for an image of width \<open>W\<close> and height \<open>H\<close> (both positive) and any integer offset,
  with \<open>pw = min(200, ceilDiv(W, 5))\<close>, \<open>ph = min(200, ceilDiv(H, 5))\<close>,
  \<open>xMax = ceilDiv(W, pw) - 1\<close> and \<open>yMax = ceilDiv(H, ph) - 1\<close>, the transform returns an
  image of the same size in which every destination tile \<open>(x, y)\<close>, of origin
  \<open>(pw * x, ph * y)\<close> and size \<open>(min(pw, W - pw * x), min(ph, H - ph * y))\<close>, holds the
  pixels of the source tile whose index along each axis is the destination index when
  that is the last index, and \<open>(max - idx + offset) mod max\<close> otherwise.  The source
  pixels lie inside the image.
\<close>

theorem descramble_tile_mapping:
  fixes img :: "'p image"
  assumes "0 < W" "0 < H" "img_width img = W" "img_height img = H"
    and "pw = min 200 ((W + 4) div 5)" "ph = min 200 ((H + 4) div 5)"
    and "xMax = (W + pw - 1) div pw - 1" "yMax = (H + ph - 1) div ph - 1"
    and "0 \<le> x" "x \<le> xMax" "0 \<le> y" "y \<le> yMax"
    and "sx = (if x = xMax then x else (xMax - x + offset) mod xMax)"
    and "sy = (if y = yMax then y else (yMax - y + offset) mod yMax)"
    and "0 \<le> i" "i < min pw (W - pw * x)" "0 \<le> j" "j < min ph (H - ph * y)"
  shows "\<exists>result. descramble blank img offset = Inr result
        \<and> img_width result = W \<and> img_height result = H
        \<and> img_pixel result (pw * x + i) (ph * y + j) = img_pixel img (pw * sx + i) (ph * sy + j)
        \<and> 0 \<le> pw * sx + i \<and> pw * sx + i < W \<and> 0 \<le> ph * sy + j \<and> ph * sy + j < H"
proof -
  have pw: "pw = piece_len W" and ph: "ph = piece_len H"
    using assms(5,6) by (simp_all add: piece_len_def PIECE_SIZE_def MIN_SPLIT_COUNT_def)
  have mx: "xMax = idx_max W" and my: "yMax = idx_max H"
    using assms(7,8) by (simp_all add: idx_max_def pw ph)
  have ax: "axis_ok W pw xMax" and ay: "axis_ok H ph yMax"
    unfolding pw ph mx my using assms(1,2) by (simp_all add: axis_ok_len)
  then have pw0: "0 < pw" and ph0: "0 < ph" by (simp_all add: axis_ok_def)
  define p where "p = pw * x + i"
  define q where "q = ph * y + j"
  have "pw * x \<le> p \<and> p < pw * x + min pw (W - pw * x)" using assms(15,16) by (simp add: p_def)
  then have p: "0 \<le> p" "p < W" "p div pw = x"
    using tile_cover [OF ax assms(9,10), of p] by simp_all
  have "ph * y \<le> q \<and> q < ph * y + min ph (H - ph * y)" using assms(17,18) by (simp add: q_def)
  then have q: "0 \<le> q" "q < H" "q div ph = y"
    using tile_cover [OF ay assms(11,12), of q] by simp_all
  have sp: "pixel_src pw xMax offset p = pw * sx + i"
    using mod_eq_offset [OF pw0 p(3)] p(3) assms(13)
    by (simp add: pixel_src_def tile_src_def p_def)
  have sq: "pixel_src ph yMax offset q = ph * sy + j"
    using mod_eq_offset [OF ph0 q(3)] q(3) assms(14)
    by (simp add: pixel_src_def tile_src_def q_def)
  have w: "0 < img_width img" "0 < img_height img" using assms(1-4) by simp_all
  from descramble_pixels [OF w, of blank offset] obtain result where
    r: "descramble blank img offset = Inr result" "img_width result = W" "img_height result = H"
       "img_pixel result p q = img_pixel img (pixel_src pw xMax offset p) (pixel_src ph yMax offset q)"
    using p q unfolding assms(3,4) pw [symmetric] ph [symmetric] mx [symmetric] my [symmetric]
    by blast
  note bp = pixel_src_props(3,4) [OF ax p(1,2), of offset]
  note bq = pixel_src_props(3,4) [OF ay q(1,2), of offset]
  have px: "img_pixel result (pw * x + i) (ph * y + j) = img_pixel img (pw * sx + i) (ph * sy + j)"
    using r(4) [unfolded sp sq] unfolding p_def q_def .
  have b: "0 \<le> pw * sx + i" "pw * sx + i < W" "0 \<le> ph * sy + j" "ph * sy + j < H"
    using bp bq unfolding sp sq by simp_all
  show ?thesis
    by (intro exI [of _ result] conjI) (fact r(1) r(2) r(3) px b)+
qed

text \<open>
  The theorem at work on a 7 by 11 image whose pixel at \<open>(i, j)\<close> is the pair \<open>(i, j)\<close>,
  with offset 3: \<open>pw = 2\<close>, \<open>ph = 3\<close>, \<open>xMax = yMax = 3\<close>, and the second pixel of the
  destination tile \<open>(1, 0)\<close> comes from the source tile \<open>(2, 0)\<close>.
\<close>

theorem descramble_tile_mapping_witness:
  "\<exists>result. descramble (- 1, - 1)
        \<lparr>img_width = 7, img_height = 11, img_pixel = (\<lambda>i j. (i, j))\<rparr> 3 = Inr result
      \<and> img_width result = 7 \<and> img_height result = 11
      \<and> img_pixel result 3 0 = (5, 0)"
proof -
  let ?img = "\<lparr>img_width = 7, img_height = 11, img_pixel = (\<lambda>i j. (i, j))\<rparr> :: (int \<times> int) image"
  have "\<exists>result. descramble (- 1, - 1) ?img 3 = Inr result
        \<and> img_width result = 7 \<and> img_height result = 11
        \<and> img_pixel result (2 * 1 + 1) (3 * 0 + 0) = img_pixel ?img (2 * 2 + 1) (3 * 0 + 0)
        \<and> 0 \<le> 2 * 2 + (1::int) \<and> 2 * 2 + 1 < (7::int) \<and> 0 \<le> 3 * 0 + (0::int) \<and> 3 * 0 + 0 < (11::int)"
    by (rule descramble_tile_mapping [where W = 7 and H = 11 and pw = 2 and ph = 3
          and xMax = 3 and yMax = 3 and x = 1 and y = 0 and sx = 2 and sy = 0 and i = 1 and j = 0
          and offset = 3 and blank = "(- 1, - 1)" and img = ?img])
       simp_all
  then obtain result where
    r: "descramble (- 1, - 1) ?img 3 = Inr result" "img_width result = 7" "img_height result = 11"
       "img_pixel result (2 * 1 + 1) (3 * 0 + 0) = img_pixel ?img (2 * 2 + 1) (3 * 0 + 0)"
    by blast
  from r(4) have "img_pixel result 3 0 = (5, 0)" by simp
  with r(1-3) show ?thesis by blast
qed

section \<open>Decoding failures\<close>

text \<open>
  C8: when the decoder fails on the bytes, \<open>_descramble_image\<close> returns the bytes it was
  given; and so does \<open>get_url\<close> for a URL with a scrambling offset whose fetched bytes
  the decoder fails on.
\<close>

theorem descramble_decode_failure:
  assumes "decode image_data = Inl e"
  shows "descramble_image decode encode blank image_data offset = image_data
     \<and> (str_contains url ''#scrambled_'' \<longrightarrow> str_split url ''#scrambled_'' = p0 # p1 # rest
          \<longrightarrow> py_int p1 = Inr offset \<longrightarrow> fetch p0 = Inr (Bytes image_data)
          \<longrightarrow> mangafire_get_url py_int fetch decode encode blank url = Inr (Bytes image_data))"
  using assms by (simp add: descramble_image_def mangafire_get_url_def)

theorem descramble_decode_failure_witness:
  "descramble_image (\<lambda>b. Inl LibraryError) (\<lambda>r. Inr ''jpeg'') (0::nat) ''not an image'' 3 = ''not an image''
   \<and> mangafire_get_url (\<lambda>s. if s = ''3'' then Inr 3 else Inl ValueError)
        (\<lambda>u. if u = ''https://img/1.jpg'' then Inr (Bytes ''not an image'') else Inl LibraryError)
        (\<lambda>b. Inl LibraryError) (\<lambda>r. Inr ''jpeg'') (0::nat) ''https://img/1.jpg#scrambled_3''
      = (Inr (Bytes ''not an image'') :: error + unit content)"
proof -
  have s: "str_split ''https://img/1.jpg#scrambled_3'' ''#scrambled_'' = [''https://img/1.jpg'', ''3'']"
    by (simp add: str_split_def startswith_def)
  have c: "str_contains ''https://img/1.jpg#scrambled_3'' ''#scrambled_''"
    by (simp add: startswith_def)
  note th = descramble_decode_failure [where decode = "\<lambda>b. (Inl LibraryError :: error + nat image)"
      and e = LibraryError and image_data = "''not an image''"
      and encode = "\<lambda>r. Inr ''jpeg''" and blank = 0 and offset = 3
      and url = "''https://img/1.jpg#scrambled_3''" and ?p0.0 = "''https://img/1.jpg''" and ?p1.0 = "''3''"
      and rest = "[]" and py_int = "\<lambda>s. if s = ''3'' then Inr 3 else Inl ValueError"
      and fetch = "\<lambda>u. if u = ''https://img/1.jpg'' then Inr (Bytes ''not an image'') else (Inl LibraryError :: error + unit content)",
      OF refl]
  have d: "descramble_image (\<lambda>b. Inl LibraryError) (\<lambda>r. Inr ''jpeg'') (0::nat) ''not an image'' 3 = ''not an image''"
    by (rule th [THEN conjunct1])
  have g: "mangafire_get_url (\<lambda>s. if s = ''3'' then Inr 3 else Inl ValueError)
        (\<lambda>u. if u = ''https://img/1.jpg'' then Inr (Bytes ''not an image'') else Inl LibraryError)
        (\<lambda>b. Inl LibraryError) (\<lambda>r. Inr ''jpeg'') (0::nat) ''https://img/1.jpg#scrambled_3''
      = (Inr (Bytes ''not an image'') :: error + unit content)"
    by (rule th [THEN conjunct2, rule_format, OF c s]) simp_all
  from d g show ?thesis by (rule conjI)
qed

section \<open>Scrambling and descrambling\<close>

lemma tile_width_src:
  assumes "axis_ok W pw m" "0 \<le> x" "x \<le> m"
  shows "min pw (W - pw * tile_src m off x) = min pw (W - pw * x)"
proof (cases "x = m")
  case True
  then show ?thesis by (simp add: tile_src_def)
next
  case False
  from assms(1) have pw: "0 < pw" and m: "pw * m < W" by (simp_all add: axis_ok_def)
  have s: "tile_src m off x + 1 \<le> m" using tile_src_range [OF assms(2,3), of off] False by simp
  have "pw * (tile_src m off x + 1) \<le> pw * m" using s pw by (simp only: mult_le_cancel_left) simp
  then have a: "pw * tile_src m off x + pw \<le> pw * m" by (simp add: algebra_simps)
  have "x + 1 \<le> m" using assms(3) False by simp
  then have "pw * (x + 1) \<le> pw * m" using pw by (simp only: mult_le_cancel_left) simp
  then have b: "pw * x + pw \<le> pw * m" by (simp add: algebra_simps)
  from a b m show ?thesis by simp
qed

lemma scramble_tile_step:
  fixes img r :: "'p image"
  assumes ax: "axis_ok W pw mx" and ay: "axis_ok H ph my"
    and img: "img_width img = W" "img_height img = H"
    and x: "0 \<le> x" "x \<le> mx" and y: "0 \<le> y" "y \<le> my"
    and res: "img_width r = W \<and> img_height r = H"
  shows "\<exists>r'. scramble_tile blank img off (pw, ph) (mx, my) y x r = Inr r'
      \<and> (img_width r' = W \<and> img_height r' = H)
      \<and> (\<forall>k. img_pixel r' (fst k) (snd k) =
            (if (0 \<le> fst k \<and> fst k < W \<and> fst k div pw = tile_src mx off x)
                \<and> (0 \<le> snd k \<and> snd k < H \<and> snd k div ph = tile_src my off y)
             then img_pixel img (pixel_src pw mx off (fst k)) (pixel_src ph my off (snd k))
             else img_pixel r (fst k) (snd k)))"
proof -
  define sx where "sx = tile_src mx off x"
  define sy where "sy = tile_src my off y"
  define w where "w = min pw (W - pw * x)"
  define h where "h = min ph (H - ph * y)"
  define r' where "r' = paste r (crop blank img (pw * x, ph * y, pw * x + w, ph * y + h)) (pw * sx, ph * sy)"
  from ax ay have pw: "0 < pw" and ph: "0 < ph" by (simp_all add: axis_ok_def)
  have sxr: "0 \<le> sx" "sx \<le> mx" and syr: "0 \<le> sy" "sy \<le> my"
    using tile_src_range [OF x, of off] tile_src_range [OF y, of off] by (simp_all add: sx_def sy_def)
  have w': "w = min pw (W - pw * sx)" and h': "h = min ph (H - ph * sy)"
    using tile_width_src [OF ax x, of off] tile_width_src [OF ay y, of off]
    by (simp_all add: w_def h_def sx_def sy_def)
  have bx: "tile_src mx off sx = x" and "by": "tile_src my off sy = y"
    unfolding sx_def sy_def by (rule tile_src_invol [OF x], rule tile_src_invol [OF y])
  have run: "scramble_tile blank img off (pw, ph) (mx, my) y x r = Inr r'"
    by (simp add: scramble_tile_def src_idx_ok [OF x] src_idx_ok [OF y] Let_def img
        r'_def sx_def sy_def w_def h_def)
  have size: "img_width r' = W \<and> img_height r' = H"
    using res by (simp add: r'_def paste_def)
  have px: "img_pixel r' p q =
            (if (0 \<le> p \<and> p < W \<and> p div pw = sx) \<and> (0 \<le> q \<and> q < H \<and> q div ph = sy)
             then img_pixel img (pixel_src pw mx off p) (pixel_src ph my off q)
             else img_pixel r p q)" for p q
  proof (cases "(0 \<le> p \<and> p < W \<and> p div pw = sx) \<and> (0 \<le> q \<and> q < H \<and> q div ph = sy)")
    case True
    then have cp: "pw * sx \<le> p \<and> p < pw * sx + w" and cq: "ph * sy \<le> q \<and> q < ph * sy + h"
      using tile_cover [OF ax sxr, of p] tile_cover [OF ay syr, of q] by (simp_all add: w' h')
    from True have p: "0 \<le> p" "p < W" "p div pw = sx" and q: "0 \<le> q" "q < H" "q div ph = sy"
      by simp_all
    have sp: "pixel_src pw mx off p = pw * x + (p - pw * sx)"
      using mod_eq_offset [OF pw p(3)] p(3) bx by (simp add: pixel_src_def)
    have sq: "pixel_src ph my off q = ph * y + (q - ph * sy)"
      using mod_eq_offset [OF ph q(3)] q(3) "by" by (simp add: pixel_src_def)
    note bp = pixel_src_props(3,4) [OF ax p(1,2), of off]
    note bq = pixel_src_props(3,4) [OF ay q(1,2), of off]
    have "img_pixel r' p q = img_pixel img (pw * x + (p - pw * sx)) (ph * y + (q - ph * sy))"
      using cp cq p q res bp bq unfolding sp sq
      by (simp add: r'_def paste_def crop_def img)
    with True show ?thesis by (simp add: sp sq)
  next
    case False
    then have "\<not> ((pw * sx \<le> p \<and> p < pw * sx + w) \<and> (ph * sy \<le> q \<and> q < ph * sy + h))"
      using tile_cover [OF ax sxr, of p] tile_cover [OF ay syr, of q] by (simp add: w' h')
    then have "img_pixel r' p q = img_pixel r p q"
      by (auto simp add: r'_def paste_def crop_def)
    then show ?thesis using False by (simp only: if_not_P if_False)
  qed
  from run size px show ?thesis unfolding sx_def sy_def by blast
qed

lemma tile_src_onto:
  assumes "0 \<le> d" "d \<le> m"
  shows "\<exists>x. 0 \<le> x \<and> x \<le> m \<and> tile_src m off x = d"
  using tile_src_range [OF assms, of off] tile_src_invol [OF assms, of off] by blast

lemma scramble_run:
  fixes img :: "'p image"
  assumes "0 < img_width img" "0 < img_height img"
  shows "scramble blank img off =
     for_each (\<lambda>y. for_each (scramble_tile blank img off
                   (piece_len (img_width img), piece_len (img_height img))
                   (idx_max (img_width img), idx_max (img_height img)) y)
                 (py_range (idx_max (img_width img) + 1)))
       (py_range (idx_max (img_height img) + 1))
       (new_image blank (img_width img) (img_height img))"
proof -
  have "0 < piece_len (img_width img)" "0 < piece_len (img_height img)"
    using axis_ok_len assms by (simp_all add: axis_ok_def)
  then have nz: "piece_len (img_width img) \<noteq> 0" "piece_len (img_height img) \<noteq> 0"
    by simp_all
  have c5: "ceil_div a MIN_SPLIT_COUNT = Inr ((a + MIN_SPLIT_COUNT - 1) div MIN_SPLIT_COUNT)" for a
    by (simp add: ceil_div_def MIN_SPLIT_COUNT_def)
  have cp: "ceil_div a (piece_len a) = Inr (idx_max a + 1)" if "piece_len a \<noteq> 0" for a
    using that by (simp add: ceil_div_def idx_max_def)
  show ?thesis
    unfolding scramble_def Let_def c5 sum.case piece_len_def [symmetric] cp [OF nz(1)] cp [OF nz(2)]
    by simp
qed

lemma scramble_pixels:
  fixes img :: "'p image"
  assumes "0 < img_width img" "0 < img_height img"
  shows "\<exists>r. scramble blank img off = Inr r
      \<and> img_width r = img_width img \<and> img_height r = img_height img
      \<and> (\<forall>p q. 0 \<le> p \<and> p < img_width img \<and> 0 \<le> q \<and> q < img_height img \<longrightarrow>
            img_pixel r p q =
              img_pixel img (pixel_src (piece_len (img_width img)) (idx_max (img_width img)) off p)
                            (pixel_src (piece_len (img_height img)) (idx_max (img_height img)) off q))"
proof -
  let ?W = "img_width img" and ?H = "img_height img"
  let ?n = "new_image blank ?W ?H"
  have n: "img_width ?n = ?W \<and> img_height ?n = ?H" by (simp add: new_image_def)
  note ax = axis_ok_len [OF assms(1)] and ay = axis_ok_len [OF assms(2)]
  have "\<exists>r'. for_each (\<lambda>y. for_each (scramble_tile blank img off (piece_len ?W, piece_len ?H)
                   (idx_max ?W, idx_max ?H) y) (py_range (idx_max ?W + 1)))
               (py_range (idx_max ?H + 1)) ?n = Inr r'
      \<and> (img_width r' = ?W \<and> img_height r' = ?H)
      \<and> (\<forall>k. img_pixel r' (fst k) (snd k) =
            (if (0 \<le> fst k \<and> fst k < ?W) \<and> (0 \<le> snd k \<and> snd k < ?H)
             then img_pixel img (pixel_src (piece_len ?W) (idx_max ?W) off (fst k))
                                (pixel_src (piece_len ?H) (idx_max ?H) off (snd k))
             else img_pixel ?n (fst k) (snd k)))"
    by (rule tiles_rows [where dx = "tile_src (idx_max ?W) off" and dy = "tile_src (idx_max ?H) off"
          and pw = "piece_len ?W" and ph = "piece_len ?H",
          OF scramble_tile_step [OF ax ay refl refl] tile_src_onto tile_src_onto ax ay n])
  then obtain r where r: "scramble blank img off = Inr r" "img_width r = ?W \<and> img_height r = ?H"
    "\<And>k. img_pixel r (fst k) (snd k) =
            (if (0 \<le> fst k \<and> fst k < ?W) \<and> (0 \<le> snd k \<and> snd k < ?H)
             then img_pixel img (pixel_src (piece_len ?W) (idx_max ?W) off (fst k))
                                (pixel_src (piece_len ?H) (idx_max ?H) off (snd k))
             else img_pixel ?n (fst k) (snd k))"
    unfolding scramble_run [OF assms, symmetric] by blast
  have "img_pixel r p q = img_pixel img (pixel_src (piece_len ?W) (idx_max ?W) off p)
                                (pixel_src (piece_len ?H) (idx_max ?H) off q)"
    if "0 \<le> p \<and> p < ?W \<and> 0 \<le> q \<and> q < ?H" for p q
    using r(3) [of "(p, q)"] that by simp
  with r(1,2) show ?thesis by blast
qed

lemma pixel_src_last:
  assumes "0 < pw" "p div pw = m"
  shows "pixel_src pw m off p = p"
  using assms mult_div_mod_eq [of pw p] by (simp add: pixel_src_def tile_src_def)
text \<open>
  C2, as stated, fails: a tile of the final row that is not in the final column can be
  moved along its row, by the descrambling and by the scramble alike.  On a 3 by 3 image whose
  pixel at \<open>(i, j)\<close> is the pair \<open>(i, j)\<close> the tiles are single pixels and the last index
  is 2 on both axes; with offset 1, the tile \<open>(0, 2)\<close> of the final row receives the
  tile \<open>(1, 2)\<close>.
\<close>

theorem edge_tile_not_invariant:
  "\<exists>d s. descramble (- 1, - 1) \<lparr>img_width = 3, img_height = 3, img_pixel = (\<lambda>i j. (i, j))\<rparr> 1 = Inr d
       \<and> scramble (- 1, - 1) \<lparr>img_width = 3, img_height = 3, img_pixel = (\<lambda>i j. (i, j))\<rparr> 1 = Inr s
       \<and> img_pixel d 0 2 = (1, 2) \<and> img_pixel s 0 2 = (1, 2)"
proof -
  let ?img = "\<lparr>img_width = 3, img_height = 3, img_pixel = (\<lambda>i j. (i, j))\<rparr> :: (int \<times> int) image"
  have w: "0 < img_width ?img" "0 < img_height ?img" by simp_all
  have l: "piece_len 3 = 1" "idx_max 3 = 2"
    by (simp_all add: idx_max_def piece_len_def PIECE_SIZE_def MIN_SPLIT_COUNT_def)
  have p: "pixel_src 1 2 1 0 = 1" "pixel_src 1 2 1 2 = 2"
    by (simp_all add: pixel_src_def tile_src_def)
  from descramble_pixels [OF w, of "(- 1, - 1)" 1] obtain d where
    d: "descramble (- 1, - 1) ?img 1 = Inr d"
       "\<And>p q. 0 \<le> p \<and> p < 3 \<and> 0 \<le> q \<and> q < 3 \<Longrightarrow>
          img_pixel d p q = (pixel_src 1 2 1 p, pixel_src 1 2 1 q)"
    by (auto simp: l)
  from scramble_pixels [OF w, of "(- 1, - 1)" 1] obtain s where
    s: "scramble (- 1, - 1) ?img 1 = Inr s"
       "\<And>p q. 0 \<le> p \<and> p < 3 \<and> 0 \<le> q \<and> q < 3 \<Longrightarrow>
          img_pixel s p q = (pixel_src 1 2 1 p, pixel_src 1 2 1 q)"
    by (auto simp: l)
  have "img_pixel d 0 2 = (1, 2)" "img_pixel s 0 2 = (1, 2)"
    using d(2) [of 0 2] s(2) [of 0 2] by (simp_all add: p)
  with d(1) s(1) show ?thesis by blast
qed

text \<open>
  C2, amended: for every image with positive width and height and every integer offset,
  the forward scramble followed by the descrambling gives back every pixel of the
  original image, on the edge tiles as well as on the others.  Both operations keep a
  tile's index along an axis on which it is the last one: a pixel of the final column
  keeps its \<open>x\<close> coordinate, a pixel of the final row keeps its \<open>y\<close> coordinate, and the
  corner tile (last column and last row) is left unchanged.  Along the other axis a
  pixel of an edge tile is taken from where the index mapping of that axis points, as
  for any other tile.
\<close>

theorem scramble_descramble_roundtrip:
  fixes img :: "'p image"
  assumes "0 < img_width img" "0 < img_height img"
    and "W = img_width img" "H = img_height img"
    and "0 \<le> p" "p < W" "0 \<le> q" "q < H"
  shows "\<exists>s r d. scramble blank img offset = Inr s \<and> descramble blank s offset = Inr r
       \<and> descramble blank img offset = Inr d
       \<and> img_width r = W \<and> img_height r = H
       \<and> img_pixel r p q = img_pixel img p q
       \<and> (p div piece_len W = idx_max W \<longrightarrow>
            img_pixel s p q = img_pixel img p (pixel_src (piece_len H) (idx_max H) offset q)
            \<and> img_pixel d p q = img_pixel img p (pixel_src (piece_len H) (idx_max H) offset q))
       \<and> (q div piece_len H = idx_max H \<longrightarrow>
            img_pixel s p q = img_pixel img (pixel_src (piece_len W) (idx_max W) offset p) q
            \<and> img_pixel d p q = img_pixel img (pixel_src (piece_len W) (idx_max W) offset p) q)
       \<and> (p div piece_len W = idx_max W \<and> q div piece_len H = idx_max H \<longrightarrow>
            img_pixel s p q = img_pixel img p q \<and> img_pixel d p q = img_pixel img p q)"
proof -
  note ax = axis_ok_len [OF assms(1)] and ay = axis_ok_len [OF assms(2)]
  let ?fx = "pixel_src (piece_len W) (idx_max W) offset"
  let ?fy = "pixel_src (piece_len H) (idx_max H) offset"
  from ax ay have pw: "0 < piece_len W" and ph: "0 < piece_len H"
    by (simp_all add: axis_ok_def assms(3,4))
  from scramble_pixels [OF assms(1,2), of blank offset] obtain s where
    s: "scramble blank img offset = Inr s" "img_width s = W" "img_height s = H"
       "\<And>p q. 0 \<le> p \<and> p < W \<and> 0 \<le> q \<and> q < H \<Longrightarrow> img_pixel s p q = img_pixel img (?fx p) (?fy q)"
    unfolding assms(3,4) by blast
  from descramble_pixels [OF assms(1,2), of blank offset] obtain d where
    d: "descramble blank img offset = Inr d"
       "\<And>p q. 0 \<le> p \<and> p < W \<and> 0 \<le> q \<and> q < H \<Longrightarrow> img_pixel d p q = img_pixel img (?fx p) (?fy q)"
    unfolding assms(3,4) by blast
  have sw: "0 < img_width s" "0 < img_height s" using s(2,3) assms(1-4) by simp_all
  from descramble_pixels [OF sw, of blank offset] obtain r where
    r: "descramble blank s offset = Inr r" "img_width r = W" "img_height r = H"
       "\<And>p q. 0 \<le> p \<and> p < W \<and> 0 \<le> q \<and> q < H \<Longrightarrow> img_pixel r p q = img_pixel s (?fx p) (?fy q)"
    unfolding s(2,3) by blast
  note bp = pixel_src_props(3,4) [OF ax [folded assms(3)] assms(5,6), of offset]
  note bq = pixel_src_props(3,4) [OF ay [folded assms(4)] assms(7,8), of offset]
  have ip: "?fx (?fx p) = p" by (rule pixel_src_invol [OF ax [folded assms(3)] assms(5,6)])
  have iq: "?fy (?fy q) = q" by (rule pixel_src_invol [OF ay [folded assms(4)] assms(7,8)])
  have "img_pixel r p q = img_pixel s (?fx p) (?fy q)" using r(4) assms(5-8) by simp
  also have "\<dots> = img_pixel img (?fx (?fx p)) (?fy (?fy q))" using s(4) bp bq by simp
  finally have rt: "img_pixel r p q = img_pixel img p q" unfolding ip iq .
  have sp: "img_pixel s p q = img_pixel img (?fx p) (?fy q)" using s(4) assms(5-8) by simp
  have dp: "img_pixel d p q = img_pixel img (?fx p) (?fy q)" using d(2) assms(5-8) by simp
  have lx: "?fx p = p" if "p div piece_len W = idx_max W" using pw that by (rule pixel_src_last)
  have ly: "?fy q = q" if "q div piece_len H = idx_max H" using ph that by (rule pixel_src_last)
  have e1: "p div piece_len W = idx_max W \<longrightarrow>
            img_pixel s p q = img_pixel img p (?fy q) \<and> img_pixel d p q = img_pixel img p (?fy q)"
    using sp dp lx by simp
  have e2: "q div piece_len H = idx_max H \<longrightarrow>
            img_pixel s p q = img_pixel img (?fx p) q \<and> img_pixel d p q = img_pixel img (?fx p) q"
    using sp dp ly by simp
  have e3: "p div piece_len W = idx_max W \<and> q div piece_len H = idx_max H \<longrightarrow>
            img_pixel s p q = img_pixel img p q \<and> img_pixel d p q = img_pixel img p q"
    using sp dp lx ly by simp
  show ?thesis
    by (intro exI [of _ s] exI [of _ r] exI [of _ d] conjI) (fact s(1) r(1) d(1) r(2) r(3) rt e1 e2 e3)+
qed

text \<open>
  The theorem at work on the 3 by 3 image with offset 1, at the pixel \<open>(0, 2)\<close> of the
  final row: the round trip gives the pixel back, and the scrambled and the descrambled
  image both hold the original's pixel \<open>(1, 2)\<close> there, of the same row.
\<close>

theorem scramble_descramble_roundtrip_witness:
  "\<exists>s r d. scramble (- 1, - 1) \<lparr>img_width = 3, img_height = 3, img_pixel = (\<lambda>i j. (i, j))\<rparr> 1 = Inr s
       \<and> descramble (- 1, - 1) s 1 = Inr r
       \<and> descramble (- 1, - 1) \<lparr>img_width = 3, img_height = 3, img_pixel = (\<lambda>i j. (i, j))\<rparr> 1 = Inr d
       \<and> img_pixel r 0 2 = (0, 2) \<and> img_pixel s 0 2 = (1, 2) \<and> img_pixel d 0 2 = (1, 2)"
proof -
  let ?img = "\<lparr>img_width = 3, img_height = 3, img_pixel = (\<lambda>i j. (i, j))\<rparr> :: (int \<times> int) image"
  have l: "piece_len 3 = 1" "idx_max 3 = 2"
    by (simp_all add: idx_max_def piece_len_def PIECE_SIZE_def MIN_SPLIT_COUNT_def)
  have p: "pixel_src 1 2 1 0 = 1"
    by (simp add: pixel_src_def tile_src_def)
  have "\<exists>s r d. scramble (- 1, - 1) ?img 1 = Inr s \<and> descramble (- 1, - 1) s 1 = Inr r
       \<and> descramble (- 1, - 1) ?img 1 = Inr d
       \<and> img_width r = 3 \<and> img_height r = 3
       \<and> img_pixel r 0 2 = img_pixel ?img 0 2
       \<and> (0 div piece_len 3 = idx_max 3 \<longrightarrow>
            img_pixel s 0 2 = img_pixel ?img 0 (pixel_src (piece_len 3) (idx_max 3) 1 2)
            \<and> img_pixel d 0 2 = img_pixel ?img 0 (pixel_src (piece_len 3) (idx_max 3) 1 2))
       \<and> (2 div piece_len 3 = idx_max 3 \<longrightarrow>
            img_pixel s 0 2 = img_pixel ?img (pixel_src (piece_len 3) (idx_max 3) 1 0) 2
            \<and> img_pixel d 0 2 = img_pixel ?img (pixel_src (piece_len 3) (idx_max 3) 1 0) 2)
       \<and> (0 div piece_len 3 = idx_max 3 \<and> 2 div piece_len 3 = idx_max 3 \<longrightarrow>
            img_pixel s 0 2 = img_pixel ?img 0 2 \<and> img_pixel d 0 2 = img_pixel ?img 0 2)"
    by (rule scramble_descramble_roundtrip [where img = ?img and W = 3 and H = 3 and p = 0 and q = 2])
       simp_all
  then obtain s r d where
    h: "scramble (- 1, - 1) ?img 1 = Inr s" "descramble (- 1, - 1) s 1 = Inr r"
       "descramble (- 1, - 1) ?img 1 = Inr d"
       "img_pixel r 0 2 = img_pixel ?img 0 2"
       "2 div piece_len 3 = idx_max 3 \<longrightarrow>
            img_pixel s 0 2 = img_pixel ?img (pixel_src (piece_len 3) (idx_max 3) 1 0) 2
            \<and> img_pixel d 0 2 = img_pixel ?img (pixel_src (piece_len 3) (idx_max 3) 1 0) 2"
    by blast
  from h(4) have a: "img_pixel r 0 2 = (0, 2)" by simp
  from h(5) have b: "img_pixel s 0 2 = (1, 2)" "img_pixel d 0 2 = (1, 2)" by (simp_all add: l p)
  from h(1-3) a b show ?thesis by blast
qed

section \<open>Termination of the lazy chapter listing\<close>

lemma no_items_break:
  assumes "no_items fetched"
  shows "\<exists>loaded. fetched = Inr loaded
           \<and> atsumaru_turn py_str slug manga_card n loaded = Break []"
proof -
  from assms obtain data chapters_data where
    d: "fetched = Inr (Inr data)" "py_get data ''chapters'' (JList []) = Inr chapters_data"
       "\<not> py_truthy chapters_data"
    by (auto simp: no_items_def split: sum.splits)
  then have "atsumaru_turn py_str slug manga_card n (Inr data) = Break []"
    by (simp add: atsumaru_turn_def)
  with d(1) show ?thesis by blast
qed

text \<open>From any page up to a page with no items, the loop ends.\<close>

lemma atsumaru_pages_ends:
  assumes "no_items (fetch slug n)" "page \<le> n"
  shows "\<exists>res. atsumaru_pages fetch py_str slug manga_card page = Some res"
  using assms(2)
proof (induction "nat (n - page)" arbitrary: page)
  case 0
  then have "page = n" by simp
  with no_items_break [OF assms(1), of py_str slug manga_card n] show ?case
    by (subst atsumaru_pages.simps) auto
next
  case (Suc m)
  then have "m = nat (n - (page + 1))" "page + 1 \<le> n" by simp_all
  from Suc.hyps(1) [OF this] obtain res where
    r: "atsumaru_pages fetch py_str slug manga_card (page + 1) = Some res" by blast
  show ?case
    by (subst atsumaru_pages.simps) (simp add: r split: sum.splits turn.splits)
qed

text \<open>Up to a page with no items, the loop reads nothing but the pages from its own on.\<close>

lemma atsumaru_pages_agree:
  assumes "no_items (fetch slug n)"
    and "\<And>k. page \<le> k \<Longrightarrow> k \<le> n \<Longrightarrow> fetch' slug k = fetch slug k"
    and "page \<le> n"
  shows "atsumaru_pages fetch' py_str slug manga_card page
       = atsumaru_pages fetch py_str slug manga_card page"
  using assms(2,3)
proof (induction "nat (n - page)" arbitrary: page)
  case 0
  then have "page = n" by simp
  then have "fetch' slug page = fetch slug page" using 0(2) by simp
  moreover from no_items_break [OF assms(1), of py_str slug manga_card n] \<open>page = n\<close>
  obtain loaded where "fetch slug page = Inr loaded"
    "atsumaru_turn py_str slug manga_card page loaded = Break []" by blast
  ultimately show ?case
    by (subst atsumaru_pages.simps, subst (2) atsumaru_pages.simps) simp
next
  case (Suc m)
  then have a: "m = nat (n - (page + 1))" "page + 1 \<le> n" by simp_all
  have "atsumaru_pages fetch' py_str slug manga_card (page + 1)
      = atsumaru_pages fetch py_str slug manga_card (page + 1)"
    by (rule Suc.hyps(1) [OF a(1) _ a(2)]) (simp add: Suc.prems(1))
  moreover have "fetch' slug page = fetch slug page" using Suc.prems by simp
  ultimately show ?case
    by (subst atsumaru_pages.simps, subst (2) atsumaru_pages.simps)
       (simp cong: sum.case_cong turn.case_cong)
qed

text \<open>
  C5: when some page of the source has no items, \<open>iter_chapters\<close> ends, whatever the
  \<open>pages\<close> fields say (nothing is assumed of them).  Each invocation starts at page 0 and
  reads the pages from 0 on only: a source whose page 0 has no items yields nothing, and
  two sources that agree from page 0 up to the page with no items yield the same.
\<close>

theorem iter_chapters_terminates:
  assumes "0 \<le> n" and "slug = last (str_split manga_url ''/'')"
    and "no_items (fetch slug n)"
  shows "(\<exists>items ending. atsumaru_iter_chapters fetch py_str manga_url manga_name = Some (items, ending))
     \<and> (no_items (fetch slug 0) \<longrightarrow>
          atsumaru_iter_chapters fetch py_str manga_url manga_name = Some ([], Exhausted))
     \<and> ((\<forall>k. 0 \<le> k \<and> k \<le> n \<longrightarrow> fetch' slug k = fetch slug k) \<longrightarrow>
          atsumaru_iter_chapters fetch' py_str manga_url manga_name
            = atsumaru_iter_chapters fetch py_str manga_url manga_name)"
proof -
  let ?c = "\<lparr>card_name = manga_name, card_url = manga_url, card_picture_url = []\<rparr>"
  have i: "atsumaru_iter_chapters f py_str manga_url manga_name = atsumaru_pages f py_str slug ?c 0" for f
    by (simp add: atsumaru_iter_chapters_def assms(2))
  from atsumaru_pages_ends [where fetch = fetch and slug = slug and n = n, OF assms(3,1), of py_str ?c]
  have 1: "\<exists>items ending. atsumaru_iter_chapters fetch py_str manga_url manga_name = Some (items, ending)"
    unfolding i by auto
  have 2: "atsumaru_iter_chapters fetch py_str manga_url manga_name = Some ([], Exhausted)"
    if "no_items (fetch slug 0)"
    using no_items_break [OF that, of py_str slug ?c 0] unfolding i
    by (subst atsumaru_pages.simps) auto
  have 3: "atsumaru_iter_chapters fetch' py_str manga_url manga_name
            = atsumaru_iter_chapters fetch py_str manga_url manga_name"
    if "\<forall>k. 0 \<le> k \<and> k \<le> n \<longrightarrow> fetch' slug k = fetch slug k"
    unfolding i
    by (rule atsumaru_pages_agree [where fetch = fetch and slug = slug and n = n, OF assms(3) _ assms(1)])
       (simp add: that)
  from 1 2 3 show ?thesis by blast
qed
text \<open>
  The theorem at work: a source that declares 1000 pages, has one chapter on each of the
  pages 0 and 1, and none from page 2 on.  The listing ends, with the two chapters.
\<close>

theorem iter_chapters_terminates_witness:
  "(\<exists>items ending.
      atsumaru_iter_chapters
        (\<lambda>slug page. Inr (Inr (JDict
           [(''chapters'', if page < 2 then JList [JDict [(''id'', JStr ''c1''), (''title'', JStr ''One'')]]
                           else JList []),
            (''pages'', JInt 1000)])))
        (\<lambda>v. case v of JStr s \<Rightarrow> s | _ \<Rightarrow> ''None'') ''https://atsu.moe/manga/abc'' ''Abc''
      = Some (items, ending))
   \<and> atsumaru_iter_chapters
        (\<lambda>slug page. Inr (Inr (JDict
           [(''chapters'', if page < 2 then JList [JDict [(''id'', JStr ''c1''), (''title'', JStr ''One'')]]
                           else JList []),
            (''pages'', JInt 1000)])))
        (\<lambda>v. case v of JStr s \<Rightarrow> s | _ \<Rightarrow> ''None'') ''https://atsu.moe/manga/abc'' ''Abc''
      = Some (replicate 2
               \<lparr>ch_name = ''One'', ch_url = ''https://atsu.moe/read/abc/c1'',
                  ch_manga = \<lparr>card_name = ''Abc'', card_url = ''https://atsu.moe/manga/abc'',
                               card_picture_url = []\<rparr>,
                  ch_pictures = []\<rparr>, Exhausted)"
proof -
  let ?fetch = "\<lambda>(slug::string) (page::int). (Inr (Inr (JDict
           [(''chapters'', if page < 2 then JList [JDict [(''id'', JStr ''c1''), (''title'', JStr ''One'')]]
                           else JList []),
            (''pages'', JInt 1000)])) :: error + (error + json))"
  let ?str = "\<lambda>v. case v of JStr s \<Rightarrow> s | _ \<Rightarrow> ''None''"
  have s: "str_split ''https://atsu.moe/manga/abc'' ''/'' = [''https:'', [], ''atsu.moe'', ''manga'', ''abc'']"
    by (simp add: str_split_def startswith_def)
  have n: "no_items (?fetch ''abc'' 2)" by (simp add: no_items_def)
  have 1: "\<exists>items ending. atsumaru_iter_chapters ?fetch ?str ''https://atsu.moe/manga/abc'' ''Abc''
      = Some (items, ending)"
    by (rule iter_chapters_terminates [where n = 2 and slug = "''abc''" and fetch = ?fetch
          and fetch' = ?fetch, THEN conjunct1])
       (simp_all add: s no_items_def)
  have 2: "atsumaru_iter_chapters ?fetch ?str ''https://atsu.moe/manga/abc'' ''Abc''
      = Some (replicate 2
               \<lparr>ch_name = ''One'', ch_url = ''https://atsu.moe/read/abc/c1'',
                  ch_manga = \<lparr>card_name = ''Abc'', card_url = ''https://atsu.moe/manga/abc'',
                               card_picture_url = []\<rparr>,
                  ch_pictures = []\<rparr>, Exhausted)"
    unfolding atsumaru_iter_chapters_def s Let_def
    by (subst atsumaru_pages.simps, subst atsumaru_pages.simps, subst atsumaru_pages.simps)
       (simp add: atsumaru_turn_def atsumaru_chapter_def atsumaru_base_url_def numeral_2_eq_2)
  from 1 2 show ?thesis by (rule conjI)
qed

section \<open>Malformed payloads\<close>

text \<open>
  C6 at its failing inputs.  Atsumaru, a non-empty query and the body
  \<open>{"hits": [{}]}\<close>: the hit has no \<open>document\<close> key and \<open>hit['document']\<close> raises
  \<open>KeyError\<close>, which \<open>except json.JSONDecodeError\<close> does not catch.  MangaFire and
  MangaKatana, a page whose one card has a title link without \<open>href\<close>: \<open>KeyError\<close> again.
  A body that is not JSON does give the empty list.
\<close>

theorem search_raises_on_malformed_payload:
  "atsumaru_search py_str ''naruto'' (Inr (JDict [(''hits'', JList [JDict []])])) = Inl KeyError
   \<and> mangafire_search urljoin [\<lparr>el_link = Some \<lparr>a_href = None, a_text = ''Title''\<rparr>, el_img = None\<rparr>]
        = Inl KeyError
   \<and> mangas_from_page [\<lparr>el_link = Some \<lparr>a_href = None, a_text = ''Title''\<rparr>, el_img = None\<rparr>]
        = Inl KeyError
   \<and> atsumaru_search py_str query (Inl JSONDecodeError) = Inr []"
  by (simp add: atsumaru_search_def mangafire_search_def mangas_from_page_def
      mangafire_card_of_def mangakatana_card_of_def attr_def)

text \<open>
  C7 at its failing input: a recently-updated page whose one card has a title link
  without \<open>href\<close>.  MangaFire's and MangaKatana's \<open>check_updated_urls\<close> have no \<open>try\<close>, and
  the \<open>KeyError\<close> of \<open>link["href"]\<close> reaches the caller.
\<close>

theorem check_updated_urls_raises:
  "mangafire_check_updated_urls urljoin
       [\<lparr>el_link = Some \<lparr>a_href = None, a_text = ''Title''\<rparr>, el_img = None\<rparr>] last_chapters
     = Inl KeyError
   \<and> mangakatana_check_updated_urls
       [\<lparr>el_link = Some \<lparr>a_href = None, a_text = ''Title''\<rparr>, el_img = None\<rparr>] last_chapters
     = Inl KeyError"
  by (simp add: mangafire_check_updated_urls_def mangakatana_check_updated_urls_def attr_def)

text \<open>
  What does hold of the three: Atsumaru returns \<open>([], [])\<close> when anything is raised and
  \<open>([], all previous URLs)\<close> otherwise; MangaFire and MangaKatana, when no link lacks its
  \<open>href\<close>, return the previous URLs split by membership in the listing, hence
  \<open>([], all previous URLs)\<close> when none of them is listed.
\<close>

lemma atsumaru_check_updated_urls_cases:
  "atsumaru_check_updated_urls loaded last_chapters = ([], [])
   \<or> atsumaru_check_updated_urls loaded last_chapters = ([], map ch_url last_chapters)"
  by (simp add: atsumaru_check_updated_urls_def split: sum.splits)

lemma atsumaru_check_updated_urls_failure:
  "atsumaru_check_updated_urls (Inl e) last_chapters = ([], [])"
  by (simp add: atsumaru_check_updated_urls_def)

lemma classify_unlisted:
  assumes "\<forall>c \<in> set last_chapters. ch_url c \<notin> set listed"
  shows "classify listed last_chapters = ([], map ch_url last_chapters)"
  using assms by (auto simp: classify_def filter_empty_conv filter_id_conv)


section \<open>Extraction of the asset array\<close>

lemma takeWhile_stop:
  "\<forall>x \<in> set xs. P x \<Longrightarrow> \<not> P y \<Longrightarrow> takeWhile P (xs @ y # ys) = xs"
  by (induction xs) auto

lemma dropWhile_stop:
  "\<forall>x \<in> set xs. P x \<Longrightarrow> \<not> P y \<Longrightarrow> dropWhile P (xs @ y # ys) = y # ys"
  by (induction xs) auto

lemma match_array_sound:
  assumes "match_array var_name s = Some body"
  shows "\<exists>post. s = (''var '' @ var_name @ ''=['') @ body @ '']'' @ post"
proof -
  let ?P = "''var '' @ var_name @ ''=[''"
  let ?rest = "drop (length ?P) s"
  from assms have st: "startswith s ?P"
    and b: "body = takeWhile (\<lambda>c. c \<noteq> CHR '']'') ?rest" and l: "length body < length ?rest"
    by (auto simp: match_array_def Let_def split: if_splits)
  from st have s: "s = ?P @ ?rest"
    unfolding startswith_def by (metis append_take_drop_id)
  have r: "?rest = body @ dropWhile (\<lambda>c. c \<noteq> CHR '']'') ?rest"
    unfolding b by simp
  have ne: "dropWhile (\<lambda>c. c \<noteq> CHR '']'') ?rest \<noteq> []"
  proof
    assume "dropWhile (\<lambda>c. c \<noteq> CHR '']'') ?rest = []"
    with r have "length ?rest = length body" by (metis append_Nil2)
    with l show False by (simp only: less_irrefl)
  qed
  then have "hd (dropWhile (\<lambda>c. c \<noteq> CHR '']'') ?rest) = CHR '']''"
    using hd_dropWhile [of "\<lambda>c. c \<noteq> CHR '']''" ?rest] by simp
  with ne obtain post where "dropWhile (\<lambda>c. c \<noteq> CHR '']'') ?rest = CHR '']'' # post"
    by (cases "dropWhile (\<lambda>c. c \<noteq> CHR '']'') ?rest") auto
  with r have "?rest = body @ '']'' @ post" by simp
  with s have "s = ?P @ body @ '']'' @ post" by metis
  then show ?thesis ..
qed

lemma search_array_sound:
  assumes "search_array var_name s = Some body"
  shows "\<exists>pre post. s = pre @ (''var '' @ var_name @ ''=['') @ body @ '']'' @ post"
  using assms
proof (induction s)
  case Nil
  then have "match_array var_name [] = Some body" by simp
  from match_array_sound [OF this] show ?case by (metis append_Nil)
next
  case (Cons c cs)
  show ?case
  proof (cases "match_array var_name (c # cs)")
    case None
    with Cons.prems have "search_array var_name cs = Some body" by simp
    from Cons.IH [OF this] obtain pre post where
      "cs = pre @ (''var '' @ var_name @ ''=['') @ body @ '']'' @ post" by blast
    then have "c # cs = (c # pre) @ (''var '' @ var_name @ ''=['') @ body @ '']'' @ post" by simp
    then show ?thesis by blast
  next
    case (Some b)
    with Cons.prems have "match_array var_name (c # cs) = Some body" by simp
    from match_array_sound [OF this] show ?thesis by (metis append_Nil)
  qed
qed

lemma match_array_at:
  assumes "CHR '']'' \<notin> set arr"
  shows "match_array var_name ((''var '' @ var_name @ ''=['') @ arr @ '']'' @ post) = Some arr"
proof -
  let ?P = "''var '' @ var_name @ ''=[''"
  have st: "startswith (?P @ arr @ '']'' @ post) ?P"
    unfolding startswith_iff by blast
  have d: "drop (length ?P) (?P @ arr @ '']'' @ post) = arr @ '']'' @ post"
    by simp
  have "\<forall>x \<in> set arr. x \<noteq> CHR '']''" using assms by auto
  then have "takeWhile (\<lambda>c. c \<noteq> CHR '']'') (arr @ CHR '']'' # post) = arr"
    by (rule takeWhile_stop) simp
  then have t: "takeWhile (\<lambda>c. c \<noteq> CHR '']'') (arr @ '']'' @ post) = arr"
    by simp
  show ?thesis
    unfolding match_array_def Let_def d t using st by simp
qed

lemma search_array_first:
  assumes "s = pre @ (''var '' @ var_name @ ''=['') @ arr @ '']'' @ post"
    and "CHR '']'' \<notin> set arr"
    and "\<And>p x. s = p @ (''var '' @ var_name @ ''=['') @ x \<Longrightarrow> length pre \<le> length p"
  shows "search_array var_name s = Some arr"
  using assms(1,3)
proof (induction pre arbitrary: s)
  case Nil
  then have "s = (''var '' @ var_name @ ''=['') @ arr @ '']'' @ post" by simp
  then have m: "match_array var_name s = Some arr" using match_array_at [OF assms(2)] by simp
  then show ?case by (cases s) simp_all
next
  case (Cons c pre)
  let ?P = "''var '' @ var_name @ ''=[''"
  define s' where "s' = pre @ ?P @ arr @ '']'' @ post"
  have s: "s = c # s'" using Cons.prems(1) by (simp add: s'_def)
  have "\<not> startswith s ?P"
  proof
    assume "startswith s ?P"
    then obtain x where "s = [] @ ?P @ x" unfolding startswith_iff by auto
    from Cons.prems(2) [OF this] show False by simp
  qed
  then have n: "match_array var_name s = None" by (simp add: match_array_def)
  have "search_array var_name s' = Some arr"
  proof (rule Cons.IH)
    show "s' = pre @ ?P @ arr @ '']'' @ post" by (simp add: s'_def)
  next
    fix p x
    assume "s' = p @ ?P @ x"
    then have "s = (c # p) @ ?P @ x" using s by simp
    from Cons.prems(2) [OF this] show "length pre \<le> length p" by simp
  qed
  with n s show ?case by simp
qed

lemma findall_skip:
  assumes "quote \<notin> set sep"
  shows "findall_quoted (sep @ x) = findall_quoted x"
  using assms by (induction sep) (auto simp: match_quoted_def)

lemma findall_literal:
  assumes "quote \<notin> set u"
  shows "findall_quoted (quote # u @ quote # x) = u # findall_quoted x"
proof -
  have "dropWhile (\<lambda>c. c \<noteq> quote) (u @ quote # x) = quote # x"
    using assms by (intro dropWhile_stop) auto
  moreover have "takeWhile (\<lambda>c. c \<noteq> quote) (u @ quote # x) = u"
    using assms by (intro takeWhile_stop) auto
  ultimately have "match_quoted (quote # u @ quote # x) = Some (u, x)"
    by (simp add: match_quoted_def)
  then show ?thesis by simp
qed

lemma findall_none:
  assumes "quote \<notin> set tail"
  shows "findall_quoted tail = []"
  using findall_skip [OF assms, of "[]"] by simp

text \<open>
  A text made of single-quoted literals, each after a separator without a quote, and a
  tail without a quote: \<open>findall\<close> gives the literals, in order.
\<close>

lemma findall_items:
  assumes "\<forall>(sep, u) \<in> set items. quote \<notin> set sep \<and> quote \<notin> set u"
    and "quote \<notin> set tail"
  shows "findall_quoted (concat (map (\<lambda>(sep, u). sep @ [quote] @ u @ [quote]) items) @ tail)
       = map snd items"
  using assms(1)
proof (induction items)
  case Nil
  then show ?case using findall_none [OF assms(2)] by simp
next
  case (Cons it items)
  obtain sep u where it: "it = (sep, u)" by (cases it)
  with Cons.prems have q: "quote \<notin> set sep" "quote \<notin> set u" by simp_all
  let ?rest = "concat (map (\<lambda>(sep, u). sep @ [quote] @ u @ [quote]) items) @ tail"
  have "findall_quoted (concat (map (\<lambda>(sep, u). sep @ [quote] @ u @ [quote]) (it # items)) @ tail)
      = findall_quoted (sep @ (quote # u @ quote # ?rest))"
    by (simp add: it)
  also have "\<dots> = u # findall_quoted ?rest"
    by (simp only: findall_skip [OF q(1)] findall_literal [OF q(2)])
  also have "findall_quoted ?rest = map snd items"
    using Cons.prems by (intro Cons.IH) simp
  finally show ?case by (simp add: it)
qed

text \<open>
  C3, as stated, fails on its example: a text can hold both \<open>data-src', foo);\<close> and
  \<open>var foo=['a','b','c']\<close> and give another result.  The search takes the leftmost match
  of the marker, so that after an earlier marker naming \<open>bar\<close>, for which there is no array,
  the result is empty; and it takes the leftmost array of the name, so that an earlier
  \<open>var foo=['x']\<close> gives \<open>x\<close> alone.
\<close>

theorem pictures_from_chapters_first_match:
  "str_contains ''data-src', bar); data-src', foo); var foo=['a','b','c']'' ''data-src', foo);''
   \<and> str_contains ''data-src', bar); data-src', foo); var foo=['a','b','c']'' ''var foo=['a','b','c']''
   \<and> mangakatana_pictures_from_chapters ''data-src', bar); data-src', foo); var foo=['a','b','c']'' = []
   \<and> str_contains ''var foo=['x']; data-src', foo); var foo=['a','b','c']'' ''data-src', foo);''
   \<and> str_contains ''var foo=['x']; data-src', foo); var foo=['a','b','c']'' ''var foo=['a','b','c']''
   \<and> mangakatana_pictures_from_chapters ''var foo=['x']; data-src', foo); var foo=['a','b','c']''
       = [''x'']"
proof -
  have a: "str_contains ''data-src', bar); data-src', foo); var foo=['a','b','c']'' ''data-src', foo);''"
    "str_contains ''data-src', bar); data-src', foo); var foo=['a','b','c']'' ''var foo=['a','b','c']''"
    "str_contains ''var foo=['x']; data-src', foo); var foo=['a','b','c']'' ''data-src', foo);''"
    "str_contains ''var foo=['x']; data-src', foo); var foo=['a','b','c']'' ''var foo=['a','b','c']''"
    by (simp_all add: startswith_def)
  have m: "search_marker ''data-src', bar); data-src', foo); var foo=['a','b','c']'' = Some ''bar''"
    "search_marker ''var foo=['x']; data-src', foo); var foo=['a','b','c']'' = Some ''foo''"
    by (simp_all add: match_marker_def startswith_def is_word_def is_space_def quote_def dquote_def)
  have s: "search_array ''bar'' ''data-src', bar); data-src', foo); var foo=['a','b','c']'' = None"
    "search_array ''foo'' ''var foo=['x']; data-src', foo); var foo=['a','b','c']''
       = Some (CHR 0x27 # ''x'' @ [CHR 0x27])"
    by (simp_all add: match_array_def startswith_def)
  have f: "findall_quoted (CHR 0x27 # ''x'' @ [CHR 0x27]) = [''x'']"
    by (simp add: match_quoted_def quote_def)
  have b: "mangakatana_pictures_from_chapters ''data-src', bar); data-src', foo); var foo=['a','b','c']'' = []"
    by (simp only: mangakatana_pictures_from_chapters_def m s option.case)
  have c: "mangakatana_pictures_from_chapters ''var foo=['x']; data-src', foo); var foo=['a','b','c']''
       = [''x'']"
    by (simp only: mangakatana_pictures_from_chapters_def m s f option.case)
  from a b c show ?thesis by (intro conjI)
qed

text \<open>
  C3, amended: let the marker pattern match, with \<open>var_name\<close> the name that its leftmost
  match finds.  If the text has no assignment \<open>var NAME=[...]\<close> for that name, the result
  is empty.  If the leftmost \<open>var NAME=[\<close> of the text is followed, up to the next closing
  bracket, by single-quoted literals (any text without a quote before, between and after
  them, no quote inside a literal), the result is the list of the literals in their order.
  The function is total: it cannot raise.
\<close>

theorem pictures_from_chapters_extraction:
  assumes "search_marker html_str = Some var_name"
  shows "((\<forall>pre body post. html_str \<noteq> pre @ (''var '' @ var_name @ ''=['') @ body @ '']'' @ post)
            \<longrightarrow> mangakatana_pictures_from_chapters html_str = [])
     \<and> (html_str = pre @ (''var '' @ var_name @ ''=['') @ arr @ '']'' @ post
          \<longrightarrow> (\<forall>p x. html_str = p @ (''var '' @ var_name @ ''=['') @ x \<longrightarrow> length pre \<le> length p)
          \<longrightarrow> arr = concat (map (\<lambda>(sep, u). sep @ [quote] @ u @ [quote]) items) @ tail
          \<longrightarrow> (\<forall>(sep, u) \<in> set items. quote \<notin> set sep \<and> quote \<notin> set u)
          \<longrightarrow> quote \<notin> set tail \<longrightarrow> CHR '']'' \<notin> set arr
          \<longrightarrow> mangakatana_pictures_from_chapters html_str = map snd items)"
proof -
  have a: "mangakatana_pictures_from_chapters html_str = []"
    if h: "\<forall>pre body post. html_str \<noteq> pre @ (''var '' @ var_name @ ''=['') @ body @ '']'' @ post"
  proof (cases "search_array var_name html_str")
    case None
    with assms show ?thesis by (simp add: mangakatana_pictures_from_chapters_def)
  next
    case (Some body)
    from search_array_sound [OF this] h show ?thesis by blast
  qed
  have b: "mangakatana_pictures_from_chapters html_str = map snd items"
    if s: "html_str = pre @ (''var '' @ var_name @ ''=['') @ arr @ '']'' @ post"
      and f: "\<forall>p x. html_str = p @ (''var '' @ var_name @ ''=['') @ x \<longrightarrow> length pre \<le> length p"
      and i: "arr = concat (map (\<lambda>(sep, u). sep @ [quote] @ u @ [quote]) items) @ tail"
        "\<forall>(sep, u) \<in> set items. quote \<notin> set sep \<and> quote \<notin> set u" "quote \<notin> set tail"
      and c: "CHR '']'' \<notin> set arr"
  proof -
    have "search_array var_name html_str = Some arr"
      by (rule search_array_first [OF s c]) (use f in blast)
    moreover have "findall_quoted arr = map snd items"
      unfolding i(1) by (rule findall_items [OF i(2,3)])
    ultimately show ?thesis using assms by (simp add: mangakatana_pictures_from_chapters_def)
  qed
  from a b show ?thesis by blast
qed

lemma first_occurrence_check:
  assumes "\<not> str_contains (take (n + length P - 1) s) P" and "s = p @ P @ x"
  shows "n \<le> length p"
proof (rule ccontr)
  assume "\<not> n \<le> length p"
  then have "length (p @ P) \<le> n + length P - 1" by simp
  then have "take (n + length P - 1) ((p @ P) @ x)
      = (p @ P) @ take (n + length P - 1 - length (p @ P)) x"
    by (simp only: take_append) simp
  then have "take (n + length P - 1) s = p @ P @ take (n + length P - 1 - length (p @ P)) x"
    using assms(2) by simp
  then have "str_contains (take (n + length P - 1) s) P"
    unfolding str_contains_iff by blast
  with assms(1) show False ..
qed

text \<open>
  The theorem at work on the example of the specification, and on the same marker with
  the array of another variable.
\<close>

theorem pictures_from_chapters_extraction_witness:
  "mangakatana_pictures_from_chapters ''data-src', foo); var foo=['a','b','c']'' = [''a'', ''b'', ''c'']
   \<and> mangakatana_pictures_from_chapters ''data-src', foo); var bar=['a','b','c']'' = []"
proof -
  let ?h = "''data-src', foo); var foo=['a','b','c']''"
  let ?g = "''data-src', foo); var bar=['a','b','c']''"
  let ?pre = "''data-src', foo); ''"
  let ?arr = "CHR 0x27 # ''a','b','c'' @ [CHR 0x27]"
  let ?items = "[([], ''a''), ('','', ''b''), ('','', ''c'')]"
  have m: "search_marker ?h = Some ''foo''" "search_marker ?g = Some ''foo''"
    by (simp_all add: match_marker_def startswith_def is_word_def is_space_def quote_def dquote_def)
  have d: "?h = ?pre @ (''var '' @ ''foo'' @ ''=['') @ ?arr @ '']'' @ []"
    by simp
  have f: "\<forall>p x. ?h = p @ (''var '' @ ''foo'' @ ''=['') @ x \<longrightarrow> length ?pre \<le> length p"
  proof (intro allI impI)
    fix p x
    assume "?h = p @ (''var '' @ ''foo'' @ ''=['') @ x"
    then show "length ?pre \<le> length p"
      by (rule first_occurrence_check [rotated]) (simp add: startswith_def)
  qed
  have a: "?arr = concat (map (\<lambda>(sep, u). sep @ [quote] @ u @ [quote]) ?items) @ []"
    by (simp add: quote_def)
  have q: "\<forall>(sep, u) \<in> set ?items. quote \<notin> set sep \<and> quote \<notin> set u"
    by (simp add: quote_def)
  have t: "quote \<notin> set []" by simp
  have c: "CHR '']'' \<notin> set ?arr" by simp
  have 1: "mangakatana_pictures_from_chapters ?h = map snd ?items"
    by (rule pictures_from_chapters_extraction
          [where pre = ?pre and arr = ?arr and items = ?items and tail = "[]" and post = "[]",
           OF m(1), THEN conjunct2, THEN mp, OF d, THEN mp, OF f, THEN mp, OF a, THEN mp, OF q, THEN mp, OF t, THEN mp, OF c])
  have n: "\<forall>pre body post. ?g \<noteq> pre @ (''var '' @ ''foo'' @ ''=['') @ body @ '']'' @ post"
  proof (intro allI notI)
    fix pre body post
    assume "?g = pre @ (''var '' @ ''foo'' @ ''=['') @ body @ '']'' @ post"
    then have "str_contains ?g (''var '' @ ''foo'' @ ''=['')"
      unfolding str_contains_iff by blast
    then show False by (simp add: startswith_def)
  qed
  have 2: "mangakatana_pictures_from_chapters ?g = []"
    by (rule pictures_from_chapters_extraction [OF m(2), THEN conjunct1, THEN mp, OF n])
  from 1 2 show ?thesis by simp
qed

end
